theory Spec2Isabelle
  imports Complex_Main "HOL-Library.Word"
begin

unbundle bit_operations_syntax

section \<open>Common data\<close>

text \<open>
  The two translation units \<^verbatim>\<open>nativeusb.cpp\<close> and \<^verbatim>\<open>pipeline.cpp\<close> keep their
  state in file-level statics. Each unit's statics become one record that every
  operation takes and returns. Samples are \<^verbatim>\<open>int16_t\<close> (\<^verbatim>\<open>data_t\<close>, \<^verbatim>\<open>jshort\<close>),
  colours are \<^verbatim>\<open>uint16_t\<close>: both are 16-bit words, read with \<open>sint\<close> or \<open>unat\<close>.
  A read or write outside the storage an operation owns is undefined in C++; the
  model makes it the value \<open>Inl OutOfBounds\<close>, a null pointer \<open>Inl NullPointer\<close>, a
  shift by a count outside the operand's width \<open>Inl UndefinedShift\<close>.
\<close>

type_synonym data_t = "16 word"

datatype fault = OutOfBounds | NullPointer | UndefinedShift

section \<open>pipeline.cpp: colour map\<close>

text \<open>
  The statics of the unit, lines 34 to 43. A pointer is \<open>None\<close> when null. \<open>kfft_cfg\<close> is
  the configuration \<^verbatim>\<open>kiss_fftr_alloc\<close> returned, which holds the transform size it was
  asked for; \<open>s_fft_temp_buffer\<close> is the scratch buffer of complex values.
\<close>

record pipeline_state =
  s_already_initialized :: bool
  s_colourMapData :: "16 word list option"
  s_colourMapDataSize :: int
  s_amplitude_graph_colour :: "16 word"
  kfft_cfg :: "int option"
  s_fft_window_size :: int
  s_fft_frequency_buckets :: int
  s_fft_temp_buffer :: "complex list option"

text \<open>The statics as the loader leaves them before any call.\<close>

definition pipeline_initial :: pipeline_state where
  "pipeline_initial =
     \<lparr> s_already_initialized = False,
       s_colourMapData = None,
       s_colourMapDataSize = 0,
       s_amplitude_graph_colour = 0xFFFF,
       kfft_cfg = None,
       s_fft_window_size = 0,
       s_fft_frequency_buckets = 0,
       s_fft_temp_buffer = None \<rparr>"

text \<open>
  \<^verbatim>\<open>nativeInitialize(colour_map, colour_map_size, amplitude_graph_colour)\<close>.
  The argument \<open>colour_map\<close> is what \<^verbatim>\<open>GetShortArrayElements\<close> returns: \<open>None\<close>
  for a null pointer. The copy loop reads \<open>pData[0 .. colour_map_size - 1]\<close>.
  The only assignment to \<open>s_already_initialized\<close> in the unit is the one inside
  the branch taken when it is already true.
\<close>

definition nativeInitialize ::
  "pipeline_state \<Rightarrow> 16 word list option \<Rightarrow> int \<Rightarrow> 16 word \<Rightarrow> fault + (int \<times> pipeline_state)"
where
  "nativeInitialize st colour_map colour_map_size amplitude_graph_colour =
     (let st1 = st\<lparr> s_amplitude_graph_colour := amplitude_graph_colour \<rparr> in
      if s_already_initialized st1 then Inr (0, st1\<lparr> s_already_initialized := True \<rparr>)
      else
        (case colour_map of
           Some pData \<Rightarrow>
             if 0 \<le> colour_map_size \<and> colour_map_size \<le> int (length pData)
             then Inr (0, st1\<lparr> s_colourMapDataSize := colour_map_size,
                                 s_colourMapData := Some (take (nat colour_map_size) pData) \<rparr>)
             else Inl OutOfBounds
         | None \<Rightarrow> Inr (-1, st1)))"

text \<open>Two calls in a row, the second on the state the first one left.\<close>

definition nativeInitialize_twice ::
  "pipeline_state \<Rightarrow> 16 word list \<Rightarrow> 16 word list \<Rightarrow> 16 word \<Rightarrow> fault + (int \<times> pipeline_state)"
where
  "nativeInitialize_twice st table1 table2 colour =
     (case nativeInitialize st (Some table1) (int (length table1)) colour of
        Inl e \<Rightarrow> Inl e
      | Inr (rc, st') \<Rightarrow> nativeInitialize st' (Some table2) (int (length table2)) colour)"

subsection \<open>Colour mapping\<close>

text \<open>
  \<^verbatim>\<open>static_cast<int>(value)\<close> on a float: truncation toward zero where the result
  fits an \<^verbatim>\<open>int\<close>. Outside that range the conversion is undefined in C++; the model
  saturates as the AArch64 conversion instruction does. The dB values, the offset and
  the multiplier are floats, modelled as reals.
\<close>

definition float_to_int :: "real \<Rightarrow> int" where
  "float_to_int v =
     (let t = (if 0 \<le> v then \<lfloor>v\<rfloor> else \<lceil>v\<rceil>) in
      if t > 2147483647 then 2147483647
      else if t < - 2147483648 then - 2147483648
      else t)"

text \<open>The clamp of lines 447 to 450, on the converted value.\<close>

definition clamp_index :: "int \<Rightarrow> int \<Rightarrow> int" where
  "clamp_index table_size int_value =
     (if int_value > table_size - 1 then table_size - 1
      else if int_value < 0 then 0
      else int_value)"

definition colour_index :: "pipeline_state \<Rightarrow> real \<Rightarrow> real \<Rightarrow> real \<Rightarrow> int" where
  "colour_index st value offset multiplier =
     clamp_index (s_colourMapDataSize st) (float_to_int ((value - offset) * multiplier))"

text \<open>One cell of the rendering loop: the index, then the table lookup.\<close>

definition colour_map_cell :: "pipeline_state \<Rightarrow> real \<Rightarrow> real \<Rightarrow> real \<Rightarrow> fault + 16 word" where
  "colour_map_cell st offset multiplier value =
     (case s_colourMapData st of
        None \<Rightarrow> Inl NullPointer
      | Some table \<Rightarrow>
          (let i = colour_index st value offset multiplier in
           if 0 \<le> i \<and> i < int (length table) then Inr (table ! nat i) else Inl OutOfBounds))"

text \<open>
  The two nested loops of \<^verbatim>\<open>doColourMapping\<close> visit the cells of the dB matrix in
  storage order; the colours they look up, in that order. The first fault ends the run.
\<close>

fun colour_map_cells :: "pipeline_state \<Rightarrow> real \<Rightarrow> real \<Rightarrow> real list \<Rightarrow> fault + 16 word list" where
  "colour_map_cells st offset multiplier [] = Inr []"
| "colour_map_cells st offset multiplier (v # vs) =
     (case colour_map_cell st offset multiplier v of
        Inl e \<Rightarrow> Inl e
      | Inr c \<Rightarrow>
          (case colour_map_cells st offset multiplier vs of
             Inl e \<Rightarrow> Inl e
           | Inr cs \<Rightarrow> Inr (c # cs)))"

text \<open>The colour table as a successful \<open>nativeInitialize\<close> leaves it: non-null, and
  as long as the recorded size says.\<close>

definition colour_table_loaded :: "pipeline_state \<Rightarrow> bool" where
  "colour_table_loaded st =
     (case s_colourMapData st of
        None \<Rightarrow> False
      | Some table \<Rightarrow> int (length table) = s_colourMapDataSize st \<and> 1 \<le> s_colourMapDataSize st)"

section \<open>nativeusb.cpp: constants and statics\<close>

definition MAX_CHANNELS :: int where "MAX_CHANNELS = 2"
definition MAX_SAMPLES_PER_FRAME :: int where "MAX_SAMPLES_PER_FRAME = 384 + 1"
definition URBS_PER_SECOND :: int where "URBS_PER_SECOND = 40"
definition URBS_TO_JUGGLE :: nat where "URBS_TO_JUGGLE = 10"
definition PACKETS_PER_URB :: int where "PACKETS_PER_URB = 1000 div URBS_PER_SECOND"
definition MAX_DATA_POINTS_PER_URB :: int where
  "MAX_DATA_POINTS_PER_URB = MAX_SAMPLES_PER_FRAME * MAX_CHANNELS * PACKETS_PER_URB"
definition TARGET_AUDIO_OUT_RATE :: int where "TARGET_AUDIO_OUT_RATE = 48000"
definition CANARY_DATA_VALUE :: data_t where "CANARY_DATA_VALUE = 0xFACE"
definition MAX_REFERENCE_LEN :: int where "MAX_REFERENCE_LEN = 512"
definition DOWNSAMPLING_AA_CUTOFF_HZ :: int where "DOWNSAMPLING_AA_CUTOFF_HZ = 3000"
definition DOWNSAMPLING_AA_STAGES :: nat where "DOWNSAMPLING_AA_STAGES = 4"

text \<open>
  The statics of the unit. \<open>s_android_stream\<close> is the output stream pointer: only
  whether it is null matters here. \<open>s_reference_data\<close> has
  \<open>MAX_REFERENCE_LEN + CANARY_COUNT\<close> entries; \<open>s_downsampling_filter_state\<close> is the
  array \<open>previous[DOWNSAMPLING_AA_STAGES]\<close> of \<^verbatim>\<open>int32_t\<close>.
\<close>

record usb_state =
  s_cancel_pending :: bool
  s_paused :: bool
  s_num_channels :: int
  s_sample_rate :: int
  s_nominal_samples_per_frame :: int
  s_android_stream :: bool
  s_decimation_factor :: int
  s_audio_out_rate :: int
  s_reference_data :: "data_t list"
  s_reference_len :: int
  s_reference1_index :: int
  s_reference2_index :: int
  s_heterodyne1_kHz :: int
  s_heterodyne2_kHz :: int
  s_audio_boost_shift :: int
  s_downsampling_iir_coefficient :: int
  s_downsampling_filter_state :: "int list"

definition usb_initial :: usb_state where
  "usb_initial =
     \<lparr> s_cancel_pending = False, s_paused = False, s_num_channels = 0, s_sample_rate = 0,
       s_nominal_samples_per_frame = 0, s_android_stream = False,
       s_decimation_factor = 0, s_audio_out_rate = 0,
       s_reference_data = replicate 513 0, s_reference_len = 0,
       s_reference1_index = 0, s_reference2_index = 0,
       s_heterodyne1_kHz = 0, s_heterodyne2_kHz = 0, s_audio_boost_shift = 0,
       s_downsampling_iir_coefficient = 0,
       s_downsampling_filter_state = replicate 4 0 \<rparr>"

subsection \<open>C arithmetic\<close>

text \<open>Integer division in C truncates toward zero; HOL's \<open>div\<close> rounds down.\<close>

definition c_div :: "int \<Rightarrow> int \<Rightarrow> int" where
  "c_div a b = sgn a * sgn b * (\<bar>a\<bar> div \<bar>b\<bar>)"

text \<open>A conversion to \<^verbatim>\<open>int32_t\<close> keeps the low 32 bits.\<close>

definition int32_cast :: "int \<Rightarrow> int" where
  "int32_cast x = sint (word_of_int x :: 32 word)"

text \<open>\<^verbatim>\<open>lround\<close>: to the nearest integer, halfway cases away from zero.\<close>

definition lround :: "real \<Rightarrow> int" where
  "lround x = (if 0 \<le> x then \<lfloor>x + 1 / 2\<rfloor> else - \<lfloor>- x + 1 / 2\<rfloor>)"

text \<open>
  The finite values of type \<^verbatim>\<open>double\<close> (binary64): an integer \<open>m\<close> of magnitude below
  \<open>2^53\<close> scaled by a power of two, from the subnormal spacing \<open>2^-1074\<close> up to \<open>2^971\<close>.
\<close>

definition is_double :: "real \<Rightarrow> bool" where
  "is_double d = (\<exists>m e. \<bar>m\<bar> < 2 ^ 53 \<and> - 1074 \<le> e \<and> e \<le> 971 \<and> d = real_of_int m * 2 powi e)"

text \<open>
  A double operation returns the exact result rounded to the nearest double, halfway
  cases to the one with an even significand. For a real \<open>x\<close> that is: the unit in the last
  place is \<open>2\<close> to the power \<open>double_ulp_exponent x\<close> (52 below the exponent of \<open>x\<close>, and
  never below the subnormal spacing \<open>2^-1074\<close>), and \<open>x\<close> is rounded to a multiple of it.
  Overflow to infinity is left out: the quotients formed here are far below it.
\<close>

definition round_half_even :: "real \<Rightarrow> int" where
  "round_half_even y =
     (let f = \<lfloor>y\<rfloor>; r = y - real_of_int f
      in if r < 1 / 2 then f else if 1 / 2 < r then f + 1 else if even f then f else f + 1)"

definition double_ulp_exponent :: "real \<Rightarrow> int" where
  "double_ulp_exponent x = max (\<lfloor>log 2 \<bar>x\<bar>\<rfloor> - 52) (- 1074)"

definition double_round :: "real \<Rightarrow> real" where
  "double_round x =
     (if x = 0 then 0
      else sgn x * real_of_int (round_half_even (\<bar>x\<bar> / 2 powi double_ulp_exponent x))
             * 2 powi double_ulp_exponent x)"

text \<open>
  \<^verbatim>\<open>calculate_iir_coefficient(cutoff_hz, sample_rate_hz)\<close>. Its double arithmetic
  and the library's \<open>exp\<close> are taken as exact real arithmetic.
\<close>

definition calculate_iir_coefficient :: "real \<Rightarrow> real \<Rightarrow> int" where
  "calculate_iir_coefficient cutoff_hz sample_rate_hz =
     (let exponent = - 2 * pi * cutoff_hz / sample_rate_hz;
          a = 1 - exp exponent
      in int32_cast (lround (a * 2 ^ 31)))"

subsection \<open>Capture start: session parameters\<close>

text \<open>
  The assignments \<^verbatim>\<open>Java_org_batgizmo_app_pipeline_NativeUSB_stream\<close> makes to the
  statics before it submits the first transfer (lines 213 to 246). The two range checks
  on the channel count and on the samples per frame only log. The quotient
  \<^verbatim>\<open>(double) sample_rate / TARGET_AUDIO_OUT_RATE\<close> is the exact quotient rounded to a
  double; both operands are integers below \<open>2^31\<close>, which a double holds exactly.
\<close>

definition stream_setup :: "usb_state \<Rightarrow> int \<Rightarrow> int \<Rightarrow> usb_state" where
  "stream_setup st num_channels sample_rate =
     (let nominal = c_div sample_rate 1000;
          d0 = lround (double_round
                 (real_of_int sample_rate / real_of_int TARGET_AUDIO_OUT_RATE));
          d = (if d0 = 0 then 1 else d0)
      in st\<lparr> s_nominal_samples_per_frame := nominal,
              s_cancel_pending := False,
              s_num_channels := num_channels,
              s_sample_rate := sample_rate,
              s_decimation_factor := d,
              s_audio_out_rate := c_div sample_rate d,
              s_downsampling_iir_coefficient :=
                calculate_iir_coefficient (real_of_int DOWNSAMPLING_AA_CUTOFF_HZ) (real_of_int sample_rate) \<rparr>)"

text \<open>The decimation rule in the words of the specification.\<close>

definition spec_decimation_factor :: "int \<Rightarrow> int \<Rightarrow> int" where
  "spec_decimation_factor R T = max 1 (round (real_of_int R / real_of_int T))"

section \<open>nativeusb.cpp: channel merge\<close>

text \<open>
  Line 377: \<^verbatim>\<open>(short) (((int) pData[j] + (int) pData[j + 1]) >> 1)\<close>. The two samples
  are sign-extended to 32 bits and added; \<^verbatim>\<open>>>\<close> on a signed \<^verbatim>\<open>int\<close> is the arithmetic
  shift; the conversion to \<^verbatim>\<open>short\<close> keeps the low 16 bits.
\<close>

definition stereo_average :: "data_t \<Rightarrow> data_t \<Rightarrow> data_t" where
  "stereo_average l r = ucast (signed_drop_bit 1 ((scast l :: 32 word) + scast r))"

text \<open>
  The loop of lines 375 to 378, in place on the transfer buffer:
  \<^verbatim>\<open>for (int i = 0, j = 0; i < actual_samples_read; i += 1, j += 2)\<close>.
  Its bound is the count of samples read, both channels counted, so for \<open>n\<close> pairs it
  runs \<open>2 * n\<close> times and reads the entries up to \<open>4 * n - 1\<close>. \<open>pData\<close> is the storage
  from the start of the slot's buffer on; a read past its end is a fault.
\<close>

function stereo_merge_loop :: "nat \<Rightarrow> nat \<Rightarrow> nat \<Rightarrow> data_t list \<Rightarrow> fault + data_t list" where
  "stereo_merge_loop i j actual_samples_read pData =
     (if i < actual_samples_read then
        (if j + 1 < length pData
         then stereo_merge_loop (i + 1) (j + 2) actual_samples_read
                (pData[i := stereo_average (pData ! j) (pData ! (j + 1))])
         else Inl OutOfBounds)
      else Inr pData)"
  by pat_completeness auto
termination
  by (relation "measure (\<lambda>(i, j, n, pData). n - i)") auto

declare stereo_merge_loop.simps [simp del]

text \<open>
  Lines 373 to 380: the merge runs for two channels only, and then halves the sample
  count. The result is the buffer and the count handed to the notification callback.
\<close>

definition stereo_merge :: "int \<Rightarrow> nat \<Rightarrow> data_t list \<Rightarrow> fault + (data_t list \<times> nat)" where
  "stereo_merge num_channels actual_samples_read pData =
     (if num_channels = 2 then
        (case stereo_merge_loop 0 0 actual_samples_read pData of
           Inl e \<Rightarrow> Inl e
         | Inr pData' \<Rightarrow> Inr (pData', actual_samples_read div 2))
      else Inr (pData, actual_samples_read))"

text \<open>The mean of a pair rounded toward zero, as the specification words it.\<close>

definition spec_mean_toward_zero :: "data_t \<Rightarrow> data_t \<Rightarrow> int" where
  "spec_mean_toward_zero l r = c_div (sint l + sint r) 2"

section \<open>nativeusb.cpp: ring export\<close>

text \<open>
  The two copy loops of \<^verbatim>\<open>copyURBBufferData\<close>:
  \<^verbatim>\<open>for (int i = 0; i < count; i++) *pTarget++ = *pSource++;\<close>
  with the source and target positions as indices. The loop returns the target and the
  source position it stopped at.
\<close>

function copy_loop ::
  "int \<Rightarrow> int \<Rightarrow> data_t list \<Rightarrow> int \<Rightarrow> data_t list \<Rightarrow> int \<Rightarrow> fault + (data_t list \<times> int)"
where
  "copy_loop i count pSource sp pTarget tp =
     (if i < count then
        (if 0 \<le> sp \<and> sp < int (length pSource) \<and> 0 \<le> tp \<and> tp < int (length pTarget)
         then copy_loop (i + 1) count pSource (sp + 1) (pTarget[nat tp := pSource ! nat sp]) (tp + 1)
         else Inl OutOfBounds)
      else Inr (pTarget, sp))"
  by pat_completeness auto
termination
  by (relation "measure (\<lambda>(i, count, pSource, sp, pTarget, tp). nat (count - i))") auto

declare copy_loop.simps [simp del]

text \<open>
  \<^verbatim>\<open>copyURBBufferData(source_native_offset, source_samples, target_buffer,
  target_buffer_offset, target_buffer_size)\<close>. The source is the memory at
  \<open>source_native_offset\<close>; the target is \<open>None\<close> for a null array. The result is the
  return code and the target array.
\<close>

definition copyURBBufferData ::
  "data_t list \<Rightarrow> int \<Rightarrow> data_t list option \<Rightarrow> int \<Rightarrow> int \<Rightarrow> fault + (int \<times> data_t list option)"
where
  "copyURBBufferData pSource source_samples target_buffer target_buffer_offset target_buffer_size =
     (case target_buffer of
        None \<Rightarrow> Inr (- 1, None)
      | Some pBuffer \<Rightarrow>
          (let part1Space = target_buffer_size - target_buffer_offset;
               part1Count = (if source_samples > part1Space then part1Space else source_samples)
           in case copy_loop 0 part1Count pSource 0 pBuffer target_buffer_offset of
                Inl e \<Rightarrow> Inl e
              | Inr (buf1, sp) \<Rightarrow>
                  (let samples_to_copy = source_samples - part1Count in
                   if samples_to_copy > 0 then
                     (let part2Required = samples_to_copy;
                          part2Count = (if part2Required > target_buffer_size
                                        then target_buffer_size else part2Required)
                      in case copy_loop 0 part2Count pSource sp buf1 0 of
                           Inl e \<Rightarrow> Inl e
                         | Inr (buf2, sp') \<Rightarrow>
                             Inr (source_samples - (samples_to_copy - part2Count), Some buf2))
                   else Inr (source_samples - samples_to_copy, Some buf1))))"

section \<open>nativeusb.cpp: heterodyne audio path\<close>

subsection \<open>Starting and retuning the monitor audio\<close>

definition downsampling_filter_reset :: "usb_state \<Rightarrow> usb_state" where
  "downsampling_filter_reset st =
     st\<lparr> s_downsampling_filter_state := replicate DOWNSAMPLING_AA_STAGES 0 \<rparr>"

definition stop_audio_output :: "usb_state \<Rightarrow> usb_state" where
  "stop_audio_output st = (if s_android_stream st then st\<lparr> s_android_stream := False \<rparr> else st)"

text \<open>
  \<^verbatim>\<open>start_audio_output\<close> talks to the platform's audio service. What the service answers
  is the argument \<open>outcome\<close>: the builder could not be created, the stream could not be
  opened, the stream opened and \<^verbatim>\<open>requestStart\<close> failed, or it started.
\<close>

datatype audio_outcome = BuilderFailed | OpenFailed | StartFailed | Started

definition start_audio_output :: "usb_state \<Rightarrow> audio_outcome \<Rightarrow> bool \<times> usb_state" where
  "start_audio_output st outcome =
     (case outcome of
        BuilderFailed \<Rightarrow> (False, st)
      | OpenFailed \<Rightarrow> (False, st)
      | StartFailed \<Rightarrow> (False, st\<lparr> s_android_stream := True \<rparr>)
      | Started \<Rightarrow> (True, st\<lparr> s_android_stream := True \<rparr>))"

text \<open>
  One entry of the reference table, lines 634 and 635:
  \<^verbatim>\<open>double x = ((double) i) * pi2 / n; s_reference_data[i] = cos(x) * 0x7FFE;\<close>
  with \<^verbatim>\<open>pi2 = 3.1415927 * 2\<close>. The double arithmetic and the library's cosine are
  taken as exact real arithmetic; the conversion to \<^verbatim>\<open>int16_t\<close> truncates toward zero.
\<close>

definition pi2 :: real where
  "pi2 = 3.1415927 * 2"

definition reference_sample :: "int \<Rightarrow> int \<Rightarrow> data_t" where
  "reference_sample n i =
     (let x = real_of_int i * pi2 / real_of_int n;
          v = cos x * 0x7FFE
      in word_of_int (if 0 \<le> v then \<lfloor>v\<rfloor> else \<lceil>v\<rceil>))"

text \<open>The loop of lines 633 to 636; it returns the table and the final value of \<open>i\<close>.\<close>

function reference_loop :: "int \<Rightarrow> int \<Rightarrow> data_t list \<Rightarrow> fault + (data_t list \<times> int)" where
  "reference_loop i n table =
     (if i < n then
        (if 0 \<le> i \<and> i < int (length table)
         then reference_loop (i + 1) n (table[nat i := reference_sample n i])
         else Inl OutOfBounds)
      else Inr (table, i))"
  by pat_completeness auto
termination
  by (relation "measure (\<lambda>(i, n, table). nat (n - i))") auto

declare reference_loop.simps [simp del]

text \<open>Lines 632 to 638: the entries, then the sentinel after the last one, then the length.\<close>

definition generate_reference :: "int \<Rightarrow> usb_state \<Rightarrow> fault + usb_state" where
  "generate_reference n st =
     (case reference_loop 0 n (s_reference_data st) of
        Inl e \<Rightarrow> Inl e
      | Inr (table, i) \<Rightarrow>
          if 0 \<le> i \<and> i < int (length table)
          then Inr (st\<lparr> s_reference_data := table[nat i := CANARY_DATA_VALUE],
                          s_reference_len := n \<rparr>)
          else Inl OutOfBounds)"

text \<open>
  \<^verbatim>\<open>startAudio(audio_device_id, heterodyne1_kHz, heterodyne2_kHz, audio_boost_shift)\<close>.
  The device id only reaches the audio service, whose answer is \<open>outcome\<close>.
\<close>

definition startAudio ::
  "usb_state \<Rightarrow> audio_outcome \<Rightarrow> int \<Rightarrow> int \<Rightarrow> int \<Rightarrow> fault + (bool \<times> usb_state)"
where
  "startAudio st0 outcome heterodyne1_kHz heterodyne2_kHz audio_boost_shift =
     (let st = stop_audio_output (downsampling_filter_reset st0);
          n0 = s_nominal_samples_per_frame st;
          n = (if n0 > MAX_REFERENCE_LEN then MAX_REFERENCE_LEN else n0)
      in if heterodyne1_kHz > n \<or> heterodyne2_kHz > n then Inr (False, st)
         else
           (case (if n \<noteq> s_reference_len st then generate_reference n st else Inr st) of
              Inl e \<Rightarrow> Inl e
            | Inr st1 \<Rightarrow>
                Inr (start_audio_output
                       (st1\<lparr> s_heterodyne1_kHz := heterodyne1_kHz,
                              s_heterodyne2_kHz := heterodyne2_kHz,
                              s_audio_boost_shift := audio_boost_shift,
                              s_reference1_index := 0,
                              s_reference2_index := 0 \<rparr>)
                       outcome)))"


text \<open>
  What a well-formed reference table is: the array has its declared 513 entries, the
  length is between 0 and 512, the entries below the length are the cosine samples for
  that length, and a table that was ever generated has the sentinel right after them.
\<close>

definition reference_table_ok :: "usb_state \<Rightarrow> bool" where
  "reference_table_ok st =
     (length (s_reference_data st) = 513
      \<and> 0 \<le> s_reference_len st \<and> s_reference_len st \<le> MAX_REFERENCE_LEN
      \<and> (\<forall>i. 0 \<le> i \<and> i < s_reference_len st \<longrightarrow>
             s_reference_data st ! nat i = reference_sample (s_reference_len st) i)
      \<and> (0 < s_reference_len st \<longrightarrow>
             s_reference_data st ! nat (s_reference_len st) = CANARY_DATA_VALUE))"

subsection \<open>Writing audio: mixing, anti-alias filter, decimation\<close>

text \<open>
  Lines 759 to 761. The operands are promoted to \<^verbatim>\<open>int\<close>; the sum of the two products
  is kept to 32 bits. An index outside \<open>s_reference_data\<close> is a fault.
\<close>

definition mix_sample :: "usb_state \<Rightarrow> data_t \<Rightarrow> fault + int" where
  "mix_sample st sample =
     (let table = s_reference_data st;
          i1 = s_reference1_index st;
          i2 = s_reference2_index st
      in if \<not> (0 \<le> i1 \<and> i1 < int (length table)) then Inl OutOfBounds
         else
           (let mixed = sint sample * sint (table ! nat i1) in
            if s_heterodyne2_kHz st \<noteq> 0 then
              (if \<not> (0 \<le> i2 \<and> i2 < int (length table)) then Inl OutOfBounds
               else Inr (int32_cast (mixed + sint sample * sint (table ! nat i2))))
            else Inr mixed))"

text \<open>
  One stage of the filter, lines 766 to 769, on 64-bit integers:
  \<^verbatim>\<open>filtered = coeff * filtered + ((1LL << 31) - coeff) * previous; filtered >>= 31;\<close>
  The shift of a signed value is arithmetic, so it is division by \<open>2^31\<close> rounded down.
  For a coefficient in \<open>[0, 2^31]\<close> and 32-bit operands the sum stays below \<open>2^62\<close> in
  magnitude, so the 64-bit arithmetic does not overflow.
\<close>

definition iir_stage :: "int \<Rightarrow> int \<Rightarrow> int \<Rightarrow> int" where
  "iir_stage coeff filtered previous =
     (coeff * filtered + (2 ^ 31 - coeff) * previous) div 2 ^ 31"

text \<open>
  The loop over the stages, lines 765 to 771, along the array \<open>previous\<close>: each stage
  stores its result, converted to \<^verbatim>\<open>int32_t\<close>, and hands the 64-bit value on. The result
  is the last stage's value and the new array.
\<close>

fun aa_filter :: "int \<Rightarrow> int \<Rightarrow> int list \<Rightarrow> int \<times> int list" where
  "aa_filter coeff filtered [] = (filtered, [])"
| "aa_filter coeff filtered (p # ps) =
     (let f = iir_stage coeff filtered p;
          r = aa_filter coeff f ps
      in (fst r, int32_cast f # snd r))"

text \<open>
  Lines 779 to 789, taken when the decimation counter reaches the factor. A shift count
  outside \<open>[0, 63]\<close> is undefined for a 64-bit operand. The buffer
  \<open>downsampled_buffer\<close> has \<open>MAX_DATA_POINTS_PER_URB\<close> entries.
\<close>

definition decimate_sample :: "usb_state \<Rightarrow> int \<Rightarrow> data_t list \<Rightarrow> fault + data_t list" where
  "decimate_sample st filtered out =
     (let shift = 15 - s_audio_boost_shift st in
      if shift < 0 \<or> 64 \<le> shift then Inl UndefinedShift
      else if MAX_DATA_POINTS_PER_URB \<le> int (length out) then Inl OutOfBounds
      else
        (let f1 = filtered div 2 ^ nat shift;
             f2 = (if f1 > 32767 then 32767 else f1);
             f3 = (if f2 < - 32768 then - 32768 else f2)
         in Inr (out @ [word_of_int f3])))"

text \<open>Lines 793 to 799, for one of the two phase indices.\<close>

definition advance_reference :: "int \<Rightarrow> int \<Rightarrow> int \<Rightarrow> int" where
  "advance_reference index step len =
     (let i = index + step in if i \<ge> len then i - len else i)"

text \<open>
  The sample loop of \<^verbatim>\<open>write_audio_output\<close>, lines 756 to 800, with the decimation
  counter and the part of \<open>downsampled_buffer\<close> written so far.
\<close>

fun write_audio_samples ::
  "data_t list \<Rightarrow> usb_state \<Rightarrow> int \<Rightarrow> data_t list \<Rightarrow> fault + (usb_state \<times> data_t list)"
where
  "write_audio_samples [] st decimation_counter out = Inr (st, out)"
| "write_audio_samples (x # xs) st decimation_counter out =
     (case mix_sample st x of
        Inl e \<Rightarrow> Inl e
      | Inr mixed \<Rightarrow>
          (let r = aa_filter (s_downsampling_iir_coefficient st) mixed (s_downsampling_filter_state st);
               st1 = st\<lparr> s_downsampling_filter_state := snd r \<rparr>;
               hit = (decimation_counter + 1 = s_decimation_factor st1)
           in case (if hit then decimate_sample st1 (fst r) out else Inr out) of
                Inl e \<Rightarrow> Inl e
              | Inr out1 \<Rightarrow>
                  write_audio_samples xs
                    (st1\<lparr> s_reference1_index :=
                             advance_reference (s_reference1_index st1) (s_heterodyne1_kHz st1)
                               (s_reference_len st1),
                           s_reference2_index :=
                             advance_reference (s_reference2_index st1) (s_heterodyne2_kHz st1)
                               (s_reference_len st1) \<rparr>)
                    (if hit then 0 else decimation_counter + 1)
                    out1))"

text \<open>
  \<^verbatim>\<open>write_audio_output(pBuffer, sample_count, 1)\<close>: the statics after the run, and the
  samples handed to \<^verbatim>\<open>AAudioStream_write\<close>, whose result is only logged.
\<close>

definition write_audio_output :: "usb_state \<Rightarrow> data_t list \<Rightarrow> fault + (usb_state \<times> data_t list)" where
  "write_audio_output st pBuffer = write_audio_samples pBuffer st 0 []"

subsection \<open>The filter on a stream of mixed values\<close>

text \<open>
  The filter state after the first \<open>n\<close> values of a stream \<open>u\<close> of mixed values have gone
  through \<open>aa_filter\<close>, and the filter's output for the next value.
\<close>

primrec filter_run :: "int \<Rightarrow> (nat \<Rightarrow> int) \<Rightarrow> nat \<Rightarrow> int list \<Rightarrow> int list" where
  "filter_run coeff u 0 previous = previous"
| "filter_run coeff u (Suc n) previous =
     snd (aa_filter coeff (u n) (filter_run coeff u n previous))"

definition filter_output :: "int \<Rightarrow> (nat \<Rightarrow> int) \<Rightarrow> nat \<Rightarrow> int list \<Rightarrow> int" where
  "filter_output coeff u n previous = fst (aa_filter coeff (u n) (filter_run coeff u n previous))"

text \<open>The values an \<^verbatim>\<open>int32_t\<close> holds.\<close>

definition is_int32 :: "int \<Rightarrow> bool" where
  "is_int32 x = (- (2 ^ 31) \<le> x \<and> x < 2 ^ 31)"

text \<open>
  The dead band of one stage: the largest distance \<open>d\<close> with \<open>coeff * d < 2^31\<close>, at
  which a stage below its input no longer moves.
\<close>

definition dead_band :: "int \<Rightarrow> int" where
  "dead_band coeff = (2 ^ 31 - 1) div coeff"

text \<open>
  One stage alone on a stream \<open>u\<close>: the value it stores after \<open>n\<close> inputs, and the value
  it hands to the next stage for input \<open>n\<close>.
\<close>

primrec stage_run :: "int \<Rightarrow> (nat \<Rightarrow> int) \<Rightarrow> nat \<Rightarrow> int \<Rightarrow> int" where
  "stage_run coeff u 0 p = p"
| "stage_run coeff u (Suc n) p = int32_cast (iir_stage coeff (u n) (stage_run coeff u n p))"

definition stage_out :: "int \<Rightarrow> (nat \<Rightarrow> int) \<Rightarrow> int \<Rightarrow> nat \<Rightarrow> int" where
  "stage_out coeff u p n = iir_stage coeff (u n) (stage_run coeff u n p)"

section \<open>nativeusb.cpp: the capture loop\<close>

text \<open>
  The loop talks to the device through two ioctls, \<^verbatim>\<open>USBDEVFS_SUBMITURB\<close> and
  \<^verbatim>\<open>USBDEVFS_REAPURB\<close>. What the device answers is the input of the model: a list of
  events, one per ioctl call in the order the calls are made. An event is the call's
  result (0, or negative with an \<^verbatim>\<open>errno\<close>) and whether \<open>cancelStream\<close> ran on another
  thread while the call was in progress. \<open>cancelStream\<close> takes the mutex, which the
  worker releases only around \<^verbatim>\<open>USBDEVFS_REAPURB\<close>, so the flag of a submission's event
  is not read. When the list ends, the worker is inside an ioctl that has not returned.
\<close>

datatype errno = EINTR | ENODEV | EOTHER

datatype ioctl_ret = Success | Failure errno

type_synonym device_event = "ioctl_ret \<times> bool"

text \<open>
  The loop's variables: \<open>balls_in_the_air\<close>, \<open>s_cancel_pending\<close> and \<open>ret\<close>. The fields
  \<open>submitted\<close> and \<open>reaped\<close> are not variables of the source: they count the submissions
  and the completions that returned 0, so that the source's counter can be compared with
  the number of transfers really outstanding.
\<close>

record juggler =
  balls_in_the_air :: int
  cancel_pending :: bool
  last_ret :: ioctl_ret
  submitted :: nat
  reaped :: nat

definition juggler_start :: juggler where
  "juggler_start =
     \<lparr> balls_in_the_air = 0, cancel_pending = False, last_ret = Success,
       submitted = 0, reaped = 0 \<rparr>"

text \<open>
  The function has returned (with \<open>errno\<close>, or 0 as \<open>None\<close>), or the events ended while
  it was waiting in an ioctl.
\<close>

datatype stream_result = Returned "errno option" juggler | Waiting juggler

text \<open>
  Lines 309 to 319, for one slot:
  \<^verbatim>\<open>do { ret = ioctl(SUBMITURB); balls_in_the_air++; } while (ret < 0 && errno == EINTR);\<close>
  and the return on any other failure.
\<close>

fun submit_first ::
  "device_event list \<Rightarrow> juggler \<Rightarrow> stream_result + (juggler \<times> device_event list)"
where
  "submit_first [] j = Inl (Waiting j)"
| "submit_first ((ret, c) # es) j =
     (let j1 = j\<lparr> balls_in_the_air := balls_in_the_air j + 1,
                  last_ret := ret,
                  submitted := (if ret = Success then submitted j + 1 else submitted j) \<rparr>
      in case ret of
           Success \<Rightarrow> Inr (j1, es)
         | Failure e \<Rightarrow> if e = EINTR then submit_first es j1 else Inl (Returned (Some e) j1))"

text \<open>The \<^verbatim>\<open>for\<close> loop of line 308 over the slots still to submit.\<close>

fun throw_all ::
  "nat \<Rightarrow> device_event list \<Rightarrow> juggler \<Rightarrow> stream_result + (juggler \<times> device_event list)"
where
  "throw_all 0 es j = Inr (j, es)"
| "throw_all (Suc n) es j =
     (case submit_first es j of
        Inl r \<Rightarrow> Inl r
      | Inr (j1, es1) \<Rightarrow> throw_all n es1 j1)"

text \<open>The condition of the \<^verbatim>\<open>while\<close> at line 326, and the value returned at line 451.\<close>

definition loop_guard :: "juggler \<Rightarrow> bool" where
  "loop_guard j = (\<not> cancel_pending j \<or> balls_in_the_air j > 0)"

definition exit_code :: "juggler \<Rightarrow> errno option" where
  "exit_code j = (case last_ret j of Success \<Rightarrow> None | Failure e \<Rightarrow> Some e)"

text \<open>
  Where the worker is when it makes the next ioctl: about to reap, having to pass the
  \<^verbatim>\<open>while\<close> condition first (\<open>Reap True\<close>) or repeating the inner \<^verbatim>\<open>do\<close> loop after an
  interrupted call (\<open>Reap False\<close>); or about to submit the drained slot again.
\<close>

datatype phase = Reap bool | Resubmit

text \<open>
  Lines 326 to 434. What is done with the samples of a reaped transfer (lines 345 to
  399) changes neither the counter nor the cancel flag and is left out here.
\<close>

fun juggle :: "phase \<Rightarrow> device_event list \<Rightarrow> juggler \<Rightarrow> stream_result" where
  "juggle (Reap check) [] j =
     (if check \<and> \<not> loop_guard j then Returned (exit_code j) j else Waiting j)"
| "juggle Resubmit [] j = Waiting j"
| "juggle (Reap check) ((ret, c) # es) j =
     (if check \<and> \<not> loop_guard j then Returned (exit_code j) j
      else
        (let j1 = j\<lparr> cancel_pending := (cancel_pending j \<or> c),
                     last_ret := ret,
                     balls_in_the_air :=
                       (if ret = Success then balls_in_the_air j - 1 else balls_in_the_air j),
                     reaped := (if ret = Success then reaped j + 1 else reaped j) \<rparr>
         in case ret of
              Success \<Rightarrow>
                if \<not> cancel_pending j1 then juggle Resubmit es j1 else juggle (Reap True) es j1
            | Failure e \<Rightarrow>
                if e = EINTR \<and> \<not> cancel_pending j1 then juggle (Reap False) es j1
                else if e = ENODEV then Returned (Some e) j1
                else juggle (Reap True) es j1))"
| "juggle Resubmit ((ret, c) # es) j =
     (let j1 = j\<lparr> last_ret := ret,
                  balls_in_the_air :=
                    (if ret = Success then balls_in_the_air j + 1 else balls_in_the_air j),
                  submitted := (if ret = Success then submitted j + 1 else submitted j) \<rparr>
      in case ret of
           Success \<Rightarrow> juggle (Reap True) es j1
         | Failure e \<Rightarrow>
             if e = EINTR then juggle Resubmit es j1
             else if e = ENODEV then Returned (Some e) j1
             else juggle (Reap True) es j1)"

text \<open>The two loops one after the other, from \<open>balls_in_the_air = 0\<close>.\<close>

definition stream_loop :: "device_event list \<Rightarrow> stream_result" where
  "stream_loop es =
     (case throw_all URBS_TO_JUGGLE es juggler_start of
        Inl r \<Rightarrow> r
      | Inr (j, es1) \<Rightarrow> juggle (Reap True) es1 j)"

text \<open>The state a result carries, and the transfers really outstanding in it.\<close>

fun final_juggler :: "stream_result \<Rightarrow> juggler" where
  "final_juggler (Returned code j) = j"
| "final_juggler (Waiting j) = j"

definition outstanding :: "juggler \<Rightarrow> int" where
  "outstanding j = int (submitted j) - int (reaped j)"

section \<open>pipeline.cpp: windowed FFT\<close>

text \<open>
  Modelled from the spec: \<^verbatim>\<open>kiss_fftr\<close>, the real-input FFT of the kissfft library the
  unit includes (\<^verbatim>\<open>kissfft/kiss_fftr.h\<close>), which is not among the sources. The
  specification asks for "a real-input FFT per window into a complex scratch buffer";
  for \<open>nfft\<close> real inputs that is the first \<open>nfft / 2 + 1\<close> coefficients of the discrete
  Fourier transform. Floats are taken as reals.
\<close>

definition kiss_fftr :: "nat \<Rightarrow> real list \<Rightarrow> complex list" where
  "kiss_fftr nfft timedata =
     map (\<lambda>k. \<Sum>n<nfft. complex_of_real (timedata ! n)
                           * cis (- 2 * pi * real k * real n / real nfft))
         [0..<nfft div 2 + 1]"

definition s_dB_factor :: real where
  "s_dB_factor = 10 / log 2 10"

definition canaryValue :: real where
  "canaryValue = - 1"

text \<open>
  \<^verbatim>\<open>cleanup_fft\<close>, lines 209 to 220: both pointers are freed when set, and null
  afterwards.
\<close>

definition cleanup_fft :: "pipeline_state \<Rightarrow> pipeline_state" where
  "cleanup_fft st = st\<lparr> kfft_cfg := None, s_fft_temp_buffer := None \<rparr>"

text \<open>
  \<^verbatim>\<open>initFft(fft_window_size)\<close>, lines 181 to 201. Whether \<^verbatim>\<open>kiss_fftr_alloc\<close> and
  \<^verbatim>\<open>malloc\<close> return storage are the arguments \<open>cfg_ok\<close> and \<open>temp_ok\<close>; the
  configuration, when there is one, is for a transform of \<open>fft_window_size\<close> points.
  When either pointer is null both are released and the call returns -1. Otherwise the
  scratch buffer is zeroed and its last entry, at \<open>allocation_buckets - 1\<close>, takes the
  sentinel. A bucket count below zero makes \<open>allocation_buckets\<close>, a \<^verbatim>\<open>size_t\<close>, zero
  or a count no allocation can hold; the write of the sentinel is then outside the
  storage.
\<close>

definition initFft :: "pipeline_state \<Rightarrow> bool \<Rightarrow> bool \<Rightarrow> int \<Rightarrow> fault + (int \<times> pipeline_state)" where
  "initFft st cfg_ok temp_ok fft_window_size =
     (let st1 = (cleanup_fft st)\<lparr> s_fft_window_size := fft_window_size,
                    kfft_cfg := (if cfg_ok then Some fft_window_size else None) \<rparr>;
          st2 = st1\<lparr> s_fft_frequency_buckets := c_div fft_window_size 2 + 1 \<rparr>;
          allocation_buckets = s_fft_frequency_buckets st2 + 1
      in if \<not> cfg_ok \<or> \<not> temp_ok then Inr (- 1, cleanup_fft st2)
         else if allocation_buckets < 1 then Inl OutOfBounds
         else Inr (0, st2\<lparr> s_fft_temp_buffer :=
                            Some (replicate (nat allocation_buckets - 1) 0
                                    @ [Complex canaryValue canaryValue]) \<rparr>))"

text \<open>
  The statics as a successful \<^verbatim>\<open>initFft\<close> leaves them and \<^verbatim>\<open>doFft\<close> keeps them: a
  configuration for the window size, the bucket count derived from it, and a scratch
  buffer of one entry more than the bucket count.
\<close>

definition fft_ready :: "pipeline_state \<Rightarrow> bool" where
  "fft_ready st =
     (0 < s_fft_window_size st
      \<and> kfft_cfg st = Some (s_fft_window_size st)
      \<and> s_fft_frequency_buckets st = s_fft_window_size st div 2 + 1
      \<and> (case s_fft_temp_buffer st of
           None \<Rightarrow> False
         | Some buf \<Rightarrow> int (length buf) = s_fft_frequency_buckets st + 1))"

text \<open>The scalar arguments of \<^verbatim>\<open>doFft\<close>.\<close>

record fft_args =
  transformed_buffer_index :: int
  minDB :: real
  min_trigger_bucket :: int
  max_trigger_bucket :: int
  trigger_threshold :: real

text \<open>
  The variables the two loops of \<^verbatim>\<open>doFft\<close> change: the output array, the running
  index into it (never reset between windows) and the trigger flag.
\<close>

record fft_loop =
  transformedData :: "real list"
  transformedIndex :: int
  triggered :: bool

text \<open>The body of the bucket loop, lines 241 to 270, for bucket \<open>j\<close> with the value \<open>c\<close>.\<close>

definition fft_bucket :: "fft_args \<Rightarrow> real \<Rightarrow> int \<Rightarrow> complex \<Rightarrow> fft_loop \<Rightarrow> fault + fft_loop" where
  "fft_bucket a normalizer2 j c l =
     (let re = Re c;
          im = Im c;
          mag_squared = (re * re + im * im) * normalizer2;
          db_value = (if mag_squared > 0 then s_dB_factor * log 2 mag_squared else minDB a);
          pos = transformed_buffer_index a + transformedIndex l
      in if pos < 0 \<or> int (length (transformedData l)) \<le> pos then Inl OutOfBounds
         else Inr (l\<lparr> transformedData := (transformedData l)[nat pos := db_value],
                        transformedIndex := transformedIndex l + 1,
                        triggered :=
                          (if j \<ge> min_trigger_bucket a \<and> j \<le> max_trigger_bucket a
                              \<and> db_value \<ge> trigger_threshold a
                           then True else triggered l) \<rparr>))"

text \<open>The bucket loop of line 240 over the scratch buffer \<open>temp\<close>.\<close>

function fft_buckets ::
  "fft_args \<Rightarrow> real \<Rightarrow> complex list \<Rightarrow> int \<Rightarrow> int \<Rightarrow> fft_loop \<Rightarrow> fault + fft_loop"
where
  "fft_buckets a normalizer2 temp buckets j l =
     (if j < buckets then
        (if 0 \<le> j \<and> j < int (length temp) then
           (case fft_bucket a normalizer2 j (temp ! nat j) l of
              Inl e \<Rightarrow> Inl e
            | Inr l1 \<Rightarrow> fft_buckets a normalizer2 temp buckets (j + 1) l1)
         else Inl OutOfBounds)
      else Inr l)"
  by pat_completeness auto
termination
  by (relation "measure (\<lambda>(a, normalizer2, temp, buckets, j, l). nat (buckets - j))") auto

declare fft_buckets.simps [simp del]

text \<open>
  The window loop of lines 230 to 272. Line 233 hands \<^verbatim>\<open>kfft_cfg\<close>, the window at
  \<open>windowIndex * s_fft_window_size\<close> and \<^verbatim>\<open>s_fft_temp_buffer\<close> to \<^verbatim>\<open>kiss_fftr\<close>, which
  reads the configuration and \<open>nfft\<close> samples and writes \<open>nfft / 2 + 1\<close> values to the
  front of the scratch buffer; the bucket loop reads them back at line 241. Neither
  pointer is tested: a null one is a fault as soon as a window is processed.
\<close>

function fft_windows ::
  "pipeline_state \<Rightarrow> fft_args \<Rightarrow> real \<Rightarrow> real list \<Rightarrow> int \<Rightarrow> int \<Rightarrow> fft_loop
     \<Rightarrow> fault + (int \<times> fft_loop \<times> pipeline_state)"
where
  "fft_windows st a normalizer2 input num_windows windowIndex l =
     (if windowIndex < num_windows then
        (case kfft_cfg st of
           None \<Rightarrow> Inl NullPointer
         | Some nfft \<Rightarrow>
             (case s_fft_temp_buffer st of
                None \<Rightarrow> Inl NullPointer
              | Some buf \<Rightarrow>
                  (let start = windowIndex * s_fft_window_size st
                   in if nfft < 0 \<or> start < 0 \<or> int (length input) < start + nfft
                         \<or> length buf < nat nfft div 2 + 1
                      then Inl OutOfBounds
                      else
                        (let window = take (nat nfft) (drop (nat start) input);
                             temp = kiss_fftr (nat nfft) window @ drop (nat nfft div 2 + 1) buf;
                             st1 = st\<lparr> s_fft_temp_buffer := Some temp \<rparr>
                         in case fft_buckets a normalizer2 temp (s_fft_frequency_buckets st) 0 l of
                              Inl e \<Rightarrow> Inl e
                            | Inr l1 \<Rightarrow>
                                fft_windows st1 a normalizer2 input num_windows
                                  (windowIndex + 1) l1))))
      else Inr (windowIndex, l, st))"
  by pat_completeness auto
termination
  by (relation "measure (\<lambda>(st, a, normalizer2, input, num_windows, windowIndex, l).
                  nat (num_windows - windowIndex))") auto

declare fft_windows.simps [simp del]

text \<open>
  \<^verbatim>\<open>doFft\<close> with its three arrays present: the return code, the output array, the
  trigger flag written to \<open>triggerFlag[0]\<close>, and the statics as the call leaves them.
\<close>

definition doFft ::
  "pipeline_state \<Rightarrow> int \<Rightarrow> real list \<Rightarrow> real list \<Rightarrow> fft_args
     \<Rightarrow> fault + (int \<times> real list \<times> bool \<times> pipeline_state)"
where
  "doFft st num_windows input_slice_buffer output_slice_buffer a =
     (let normalizer = 2 / real_of_int (s_fft_window_size st);
          normalizer2 = normalizer * normalizer
      in case fft_windows st a normalizer2 input_slice_buffer num_windows 0
                \<lparr> transformedData = output_slice_buffer, transformedIndex = 0, triggered = False \<rparr>
         of Inl e \<Rightarrow> Inl e
          | Inr (rc, l, st') \<Rightarrow> Inr (rc, transformedData l, triggered l, st'))"

section \<open>Theorems: colour map\<close>

lemma clamp_index_range:
  assumes "1 \<le> n"
  shows "0 \<le> clamp_index n v" and "clamp_index n v \<le> n - 1"
  using assms by (simp_all add: clamp_index_def)

lemma nativeInitialize_loads:
  assumes "\<not> s_already_initialized st" and "1 \<le> n" and "n \<le> int (length table)"
  shows "\<exists>st'. nativeInitialize st (Some table) n colour = Inr (0, st') \<and> colour_table_loaded st'"
  using assms by (simp add: nativeInitialize_def colour_table_loaded_def Let_def)

lemma colour_map_cell_ok:
  assumes "colour_table_loaded st"
  shows "\<exists>c. colour_map_cell st offset multiplier v = Inr c"
proof -
  from assms obtain table where t: "s_colourMapData st = Some table"
    and len: "int (length table) = s_colourMapDataSize st" and pos: "1 \<le> s_colourMapDataSize st"
    by (auto simp: colour_table_loaded_def split: option.splits)
  let ?i = "colour_index st v offset multiplier"
  have "0 \<le> ?i" and "?i \<le> s_colourMapDataSize st - 1"
    using clamp_index_range [OF pos] by (simp_all add: colour_index_def)
  then show ?thesis using t len by (simp add: colour_map_cell_def Let_def)
qed

lemma colour_map_cells_ok:
  assumes "colour_table_loaded st"
  shows "\<exists>cs. colour_map_cells st offset multiplier vs = Inr cs \<and> length cs = length vs"
proof (induction vs)
  case Nil
  show ?case by simp
next
  case (Cons v vs)
  from colour_map_cell_ok [OF assms] obtain c where "colour_map_cell st offset multiplier v = Inr c"
    by blast
  with Cons show ?case by auto
qed

text \<open>
  Claim C8. For every dB value, offset and multiplier, once the colour table holds at
  least one entry, the index \<open>(value - offset) * multiplier\<close>, converted and clamped,
  lies in \<open>[0, table_size - 1]\<close>; the lookup of every cell is inside the table, and a
  whole rendering run over any matrix of dB values ends without a fault, one colour
  per cell.
\<close>

theorem C8_colour_index_in_bounds:
  assumes "colour_table_loaded st"
  shows "0 \<le> colour_index st value offset multiplier
       \<and> colour_index st value offset multiplier \<le> s_colourMapDataSize st - 1
       \<and> (\<exists>table. s_colourMapData st = Some table
            \<and> nat (colour_index st value offset multiplier) < length table
            \<and> colour_map_cell st offset multiplier value
                = Inr (table ! nat (colour_index st value offset multiplier)))
       \<and> (\<exists>cs. colour_map_cells st offset multiplier vs = Inr cs \<and> length cs = length vs)"
proof -
  from assms obtain table where t: "s_colourMapData st = Some table"
    and len: "int (length table) = s_colourMapDataSize st" and pos: "1 \<le> s_colourMapDataSize st"
    by (auto simp: colour_table_loaded_def split: option.splits)
  let ?i = "colour_index st value offset multiplier"
  have lo: "0 \<le> ?i" and hi: "?i \<le> s_colourMapDataSize st - 1"
    using clamp_index_range [OF pos] by (simp_all add: colour_index_def)
  have inb: "nat ?i < length table" using lo hi len by linarith
  have cell: "colour_map_cell st offset multiplier value = Inr (table ! nat ?i)"
    using t lo hi len by (simp add: colour_map_cell_def Let_def)
  show ?thesis using lo hi t inb cell colour_map_cells_ok [OF assms] by blast
qed

theorem C8_witness:
  "colour_table_loaded (pipeline_initial\<lparr> s_colourMapData := Some [1, 2, 3], s_colourMapDataSize := 3 \<rparr>)
   \<and> colour_index (pipeline_initial\<lparr> s_colourMapData := Some [1, 2, 3], s_colourMapDataSize := 3 \<rparr>)
         (- 20) (- 100) 2 = 2
   \<and> colour_map_cell (pipeline_initial\<lparr> s_colourMapData := Some [1, 2, 3], s_colourMapDataSize := 3 \<rparr>)
         (- 100) 2 (- 20) = Inr 3"
proof -
  let ?st = "pipeline_initial\<lparr> s_colourMapData := Some [1, 2, 3], s_colourMapDataSize := 3 \<rparr>"
  have l: "colour_table_loaded ?st" by (simp add: colour_table_loaded_def)
  have i: "colour_index ?st (- 20) (- 100) 2 = 2"
    by (simp add: colour_index_def clamp_index_def float_to_int_def)
  show ?thesis
    using C8_colour_index_in_bounds [OF l, of "- 20" "- 100" 2 "[]"] l i by simp
qed

subsection \<open>Loading the colour map\<close>

lemma nativeInitialize_flag_stays_clear:
  assumes "\<not> s_already_initialized st" and "nativeInitialize st colour_map n colour = Inr (rc, st')"
  shows "\<not> s_already_initialized st'"
  using assms by (auto simp: nativeInitialize_def Let_def split: option.splits if_splits)

lemma nativeInitialize_stores_last_table:
  assumes "\<not> s_already_initialized st"
  shows "nativeInitialize st (Some table) (int (length table)) colour
           = Inr (0, st\<lparr> s_amplitude_graph_colour := colour,
                           s_colourMapDataSize := int (length table),
                           s_colourMapData := Some table \<rparr>)"
  using assms by (simp add: nativeInitialize_def Let_def)

text \<open>
  Claim C9 asks that after a first successful \<open>nativeInitialize\<close> every later call
  leaves the stored colour map as it is. The guard meant to do that tests
  \<open>s_already_initialized\<close>, which nothing ever sets: the flag stays clear
  (\<open>nativeInitialize_flag_stays_clear\<close>) and each call stores the table it is given
  (\<open>nativeInitialize_stores_last_table\<close>). From the initial statics, a call with the
  table \<open>[1, 2]\<close> followed by a call with the table \<open>[3]\<close> leaves \<open>[3]\<close> stored.
\<close>

theorem C9_second_call_replaces_colour_map:
  "nativeInitialize_twice pipeline_initial [1, 2] [3] 0xFFFF
     = Inr (0, pipeline_initial\<lparr> s_colourMapDataSize := 1, s_colourMapData := Some [3] \<rparr>)"
  by (simp add: nativeInitialize_twice_def nativeInitialize_def pipeline_initial_def Let_def)

section \<open>Theorems: capture start\<close>

lemma is_double_int_scaled:
  assumes "\<bar>m\<bar> < 2 ^ 53" and "- 1074 \<le> e" and "e \<le> 971"
  shows "is_double (real_of_int m * 2 powi e)"
  using assms unfolding is_double_def by blast

text \<open>No double is nearer to \<open>x\<close> than \<open>double_round x\<close>.\<close>

lemma round_half_even_nearest:
  "\<bar>real_of_int (round_half_even y) - y\<bar> \<le> \<bar>real_of_int k - y\<bar>"
proof -
  define f where "f = \<lfloor>y\<rfloor>"
  have f: "real_of_int f \<le> y" "y < real_of_int f + 1" unfolding f_def by linarith+
  have k: "k \<le> f \<or> f + 1 \<le> k" by linarith
  have "round_half_even y = f \<and> y - real_of_int f \<le> 1 / 2
        \<or> round_half_even y = f + 1 \<and> 1 / 2 \<le> y - real_of_int f"
    by (auto simp: round_half_even_def Let_def f_def [symmetric])
  then show ?thesis
  proof (elim disjE conjE)
    assume a: "round_half_even y = f" "y - real_of_int f \<le> 1 / 2"
    from k show ?thesis
    proof
      assume "k \<le> f"
      then have "real_of_int k \<le> real_of_int f" by simp
      then show ?thesis using a f by linarith
    next
      assume "f + 1 \<le> k"
      then have "real_of_int f + 1 \<le> real_of_int k" by linarith
      then show ?thesis using a f by linarith
    qed
  next
    assume a: "round_half_even y = f + 1" "1 / 2 \<le> y - real_of_int f"
    from k show ?thesis
    proof
      assume "k \<le> f"
      then have "real_of_int k \<le> real_of_int f" by simp
      then show ?thesis using a f by linarith
    next
      assume "f + 1 \<le> k"
      then have "real_of_int f + 1 \<le> real_of_int k" by linarith
      then show ?thesis using a f by linarith
    qed
  qed
qed

lemma two_powi_pos: "0 < (2::real) powi e"
  by simp

lemma double_round_nearest_pos:
  assumes x: "0 < x" and d: "is_double d"
  shows "\<bar>double_round x - x\<bar> \<le> \<bar>d - x\<bar>"
proof -
  define e where "e = \<lfloor>log 2 x\<rfloor>"
  define eu where "eu = max (e - 52) (- 1074)"
  define u :: real where "u = 2 powi eu"
  define m where "m = round_half_even (x / u)"
  have upos: "0 < u" by (simp add: u_def two_powi_pos)
  have dr: "double_round x = real_of_int m * u"
    using x by (simp add: double_round_def double_ulp_exponent_def m_def u_def eu_def e_def)
  have near: "\<bar>real_of_int m * u - x\<bar> \<le> \<bar>real_of_int k * u - x\<bar>" for k
  proof -
    have "\<bar>real_of_int m - x / u\<bar> \<le> \<bar>real_of_int k - x / u\<bar>"
      unfolding m_def by (rule round_half_even_nearest)
    then have "\<bar>real_of_int m - x / u\<bar> * u \<le> \<bar>real_of_int k - x / u\<bar> * u"
      using upos by (intro mult_right_mono) simp_all
    moreover have "\<bar>real_of_int j - x / u\<bar> * u = \<bar>real_of_int j * u - x\<bar>" for j
    proof -
      have "\<bar>real_of_int j - x / u\<bar> * u = \<bar>(real_of_int j - x / u) * u\<bar>"
        using upos by (simp add: abs_mult)
      also have "(real_of_int j - x / u) * u = real_of_int j * u - x"
        using upos by (simp add: field_simps)
      finally show ?thesis .
    qed
    ultimately show ?thesis by simp
  qed
  have lo: "2 powi e \<le> x"
  proof -
    have "2 powr real_of_int e \<le> x"
      using floor_log_eq_powr_iff [of x 2 e] x by (simp add: e_def)
    then show ?thesis by (simp add: powr_real_of_int')
  qed
  from d obtain M E where M: "\<bar>M\<bar> < 2 ^ 53" and E: "- 1074 \<le> E" and dE: "d = real_of_int M * 2 powi E"
    unfolding is_double_def by blast
  show ?thesis
  proof (cases "eu \<le> E")
    case True
    define k where "k = M * 2 ^ nat (E - eu)"
    have "(2::real) powi E = 2 powi (E - eu) * 2 powi eu"
      using power_int_add [of "2::real" "E - eu" eu] by simp
    also have "(2::real) powi (E - eu) = 2 ^ nat (E - eu)"
      using True by (simp add: power_int_def)
    finally have "d = real_of_int k * u" by (simp add: dE k_def u_def)
    then show ?thesis using near [of k] dr by simp
  next
    case False
    then have eu: "eu = e - 52" and Ee: "E + 53 \<le> e" using E by (simp_all add: eu_def)
    have "\<bar>d\<bar> = real_of_int \<bar>M\<bar> * 2 powi E" using two_powi_pos [of E] by (simp add: dE abs_mult)
    also have "\<dots> < 2 ^ 53 * 2 powi E"
    proof (rule mult_strict_right_mono)
      have "real_of_int \<bar>M\<bar> < real_of_int (2 ^ 53)" using M by (simp only: of_int_less_iff)
      then show "real_of_int \<bar>M\<bar> < 2 ^ 53" by simp
      show "0 < (2::real) powi E" by (rule two_powi_pos)
    qed
    also have "\<dots> = 2 powi (53 + E)"
      using power_int_add [of "2::real" 53 E] by simp
    also have "\<dots> \<le> 2 powi e" by (rule power_int_increasing) (use Ee in simp_all)
    finally have dlt: "\<bar>d\<bar> < 2 powi e" .
    have "(2::real) powi e = 2 powi 52 * 2 powi eu"
      using power_int_add [of "2::real" 52 eu] by (simp add: eu)
    then have pe: "(2::real) powi e = real_of_int (2 ^ 52) * u" by (simp add: u_def)
    have "\<bar>real_of_int m * u - x\<bar> \<le> \<bar>real_of_int (2 ^ 52) * u - x\<bar>" by (rule near)
    also have "\<dots> = \<bar>2 powi e - x\<bar>" by (simp only: pe)
    also have "\<dots> = x - 2 powi e" using lo by simp
    also have "\<dots> \<le> \<bar>d - x\<bar>" using dlt lo by linarith
    finally show ?thesis by (simp only: dr)
  qed
qed

lemma is_double_minus: "is_double d \<Longrightarrow> is_double (- d)"
proof -
  assume "is_double d"
  then obtain m e where "\<bar>m\<bar> < 2 ^ 53" "- 1074 \<le> e" "e \<le> 971" "d = real_of_int m * 2 powi e"
    unfolding is_double_def by blast
  then have "\<bar>- m\<bar> < 2 ^ 53 \<and> - 1074 \<le> e \<and> e \<le> 971 \<and> - d = real_of_int (- m) * 2 powi e"
    by simp
  then show ?thesis unfolding is_double_def by blast
qed

lemma double_round_minus: "double_round (- x) = - double_round x"
  by (simp add: double_round_def double_ulp_exponent_def sgn_minus)

lemma double_round_nearest:
  assumes "is_double d"
  shows "\<bar>double_round x - x\<bar> \<le> \<bar>d - x\<bar>"
proof -
  consider "x = 0" | "0 < x" | "x < 0" by linarith
  then show ?thesis
  proof cases
    case 1
    then show ?thesis by (simp add: double_round_def)
  next
    case 2
    then show ?thesis using assms by (rule double_round_nearest_pos)
  next
    case 3
    then have "0 < - x" by simp
    from double_round_nearest_pos [OF this is_double_minus [OF assms]]
    show ?thesis by (simp add: double_round_minus)
  qed
qed

lemma double_round_between:
  assumes lo: "is_double lo" and hi: "is_double hi" and "lo \<le> x" and "x \<le> hi"
  shows "lo \<le> double_round x \<and> double_round x \<le> hi"
proof -
  have "\<bar>double_round x - x\<bar> \<le> \<bar>lo - x\<bar>" and "\<bar>double_round x - x\<bar> \<le> \<bar>hi - x\<bar>"
    by (rule double_round_nearest [OF lo], rule double_round_nearest [OF hi])
  with assms(3,4) show ?thesis by linarith
qed

lemma lround_double_quotient:
  assumes R1: "1 \<le> R" and R2: "R < 2 ^ 31"
  shows "lround (double_round (real_of_int R / 48000)) = round (real_of_int R / 48000)"
proof -
  define q where "q = real_of_int R / 48000"
  define k where "k = round q"
  have qpos: "0 < q" using R1 by (simp add: q_def)
  have k_le: "real_of_int k \<le> q + 1 / 2" and k_gt: "q + 1 / 2 < real_of_int k + 1"
    unfolding k_def round_def by linarith+
  have k0: "0 \<le> k" using qpos k_gt by linarith
  have qhi: "q < 44740" using R2 by (simp add: q_def)
  have k_hi: "k \<le> 44740" using k_le qhi by linarith
  have "real_of_int R < 48000 * real_of_int k + 24000"
    using k_gt by (simp add: q_def field_simps)
  then have "R < 48000 * k + 24000" by linarith
  then have "R \<le> 48000 * k + 23999" by linarith
  then have "real_of_int R \<le> 48000 * real_of_int k + 23999" by linarith
  then have q_le: "q \<le> real_of_int k + 1 / 2 - 1 / 48000"
    by (simp add: q_def field_simps)
  define lo where "lo = real_of_int (2 * k - 1) * 2 powi (- 1)"
  define hi where "hi = real_of_int (65536 * k + 32767) * 2 powi (- 16)"
  have lo_eq: "lo = real_of_int k - 1 / 2"
    by (simp add: lo_def power_int_minus field_simps)
  have hi_eq: "hi = real_of_int k + 1 / 2 - 1 / 65536"
    by (simp add: hi_def power_int_minus field_simps)
  have blo: "\<bar>2 * k - 1\<bar> < 2 ^ 53" and bhi: "\<bar>65536 * k + 32767\<bar> < 2 ^ 53"
    using k0 k_hi by simp_all
  have dlo: "is_double lo" unfolding lo_def
    by (rule is_double_int_scaled [OF blo]) simp_all
  have dhi: "is_double hi" unfolding hi_def
    by (rule is_double_int_scaled [OF bhi]) simp_all
  have d0: "is_double 0"
    using is_double_int_scaled [of 0 0] by simp
  have "lo \<le> q" using k_le lo_eq by linarith
  moreover have "q \<le> hi" using q_le hi_eq by linarith
  ultimately have b: "lo \<le> double_round q \<and> double_round q \<le> hi"
    by (rule double_round_between [OF dlo dhi])
  have "\<bar>double_round q - q\<bar> \<le> \<bar>0 - q\<bar>"
    using d0 by (rule double_round_nearest)
  then have nonneg: "0 \<le> double_round q" using qpos by linarith
  have "\<lfloor>double_round q + 1 / 2\<rfloor> = k"
  proof (rule floor_unique)
    show "real_of_int k \<le> double_round q + 1 / 2" using b lo_eq by linarith
    show "double_round q + 1 / 2 < real_of_int k + 1" using b hi_eq by linarith
  qed
  then show ?thesis using nonneg by (simp add: lround_def q_def k_def)
qed

lemma c_div_pos: "0 \<le> a \<Longrightarrow> 0 < b \<Longrightarrow> c_div a b = a div b"
  by (cases "a = 0") (simp_all add: c_div_def)

text \<open>
  Claim C2. For every input sample rate \<open>R\<close> from 1 up to the largest \<^verbatim>\<open>jint\<close>, with the
  target rate 48000, the decimation factor set at capture start is
  \<open>max 1 (round (R / 48000))\<close>, it is at least 1, and the session's output rate is \<open>R\<close>
  divided by it (integer division, as the \<^verbatim>\<open>int\<close> operands of the source make it).
\<close>

theorem C2_decimation_factor:
  assumes "1 \<le> R" and "R < 2 ^ 31"
  shows "s_decimation_factor (stream_setup st num_channels R)
           = spec_decimation_factor R TARGET_AUDIO_OUT_RATE
       \<and> 1 \<le> s_decimation_factor (stream_setup st num_channels R)
       \<and> s_audio_out_rate (stream_setup st num_channels R)
           = R div s_decimation_factor (stream_setup st num_channels R)"
proof -
  let ?d0 = "lround (double_round (real_of_int R / 48000))"
  have d0: "?d0 = round (real_of_int R / 48000)"
    by (rule lround_double_quotient [OF assms])
  have "0 \<le> round (real_of_int R / 48000)"
    using assms(1) by (simp add: round_def)
  then have d0n: "0 \<le> ?d0" using d0 by simp
  define d where "d = (if ?d0 = 0 then 1 else ?d0)"
  have dmax: "d = max 1 (round (real_of_int R / 48000))" using d0 d0n by (auto simp: d_def)
  have dpos: "1 \<le> d" using d0n by (auto simp: d_def)
  have fac: "s_decimation_factor (stream_setup st num_channels R) = d"
    by (simp add: stream_setup_def Let_def TARGET_AUDIO_OUT_RATE_def d_def)
  have rate: "s_audio_out_rate (stream_setup st num_channels R) = c_div R d"
    by (simp add: stream_setup_def Let_def TARGET_AUDIO_OUT_RATE_def d_def)
  have "c_div R d = R div d" using assms(1) dpos by (intro c_div_pos) linarith+
  then show ?thesis using fac rate dmax dpos
    by (simp add: spec_decimation_factor_def TARGET_AUDIO_OUT_RATE_def)
qed

theorem C2_witness:
  "s_decimation_factor (stream_setup usb_initial 2 384000) = 8
   \<and> s_audio_out_rate (stream_setup usb_initial 2 384000) = 48000"
  using C2_decimation_factor [of 384000 usb_initial 2]
  by (simp add: spec_decimation_factor_def TARGET_AUDIO_OUT_RATE_def)

section \<open>Theorems: channel merge\<close>

lemma sint16_bounds: "- 32768 \<le> sint (w :: 16 word) \<and> sint w < 32768"
  using sint_ge [of w] sint_lt [of w] by simp

lemma sint_stereo_average: "sint (stereo_average l r) = (sint l + sint r) div 2"
proof -
  define a :: "32 word" where "a = scast l"
  define b :: "32 word" where "b = scast r"
  have bl: "- 32768 \<le> sint l \<and> sint l < 32768" and br: "- 32768 \<le> sint r \<and> sint r < 32768"
    by (rule sint16_bounds)+
  have sa: "sint a = sint l" unfolding a_def by (rule sint_up_scast) (simp add: is_up)
  have sb: "sint b = sint r" unfolding b_def by (rule sint_up_scast) (simp add: is_up)
  have "sint (a + b) = signed_take_bit 31 (sint a + sint b)"
    by (simp add: sint_word_ariths)
  also have "\<dots> = sint l + sint r"
    unfolding sa sb by (rule signed_take_bit_int_eq_self) (use bl br in simp_all)
  finally have sum: "sint (a + b) = sint l + sint r" .
  define w where "w = signed_drop_bit 1 (a + b)"
  have sw: "sint w = (sint l + sint r) div 2"
    unfolding w_def by (simp add: sint_signed_drop_bit_eq sum drop_bit_eq_div)
  have "(ucast w :: 16 word) = scast w"
    by (simp add: down_cast_same is_down)
  then have "sint (ucast w :: 16 word) = signed_take_bit 15 (sint w)"
    by (simp add: signed_scast_eq)
  also have "\<dots> = sint w"
  proof (rule signed_take_bit_int_eq_self)
    show "- (2 ^ 15) \<le> sint w" unfolding sw using bl br by simp linarith
    show "sint w < 2 ^ 15" unfolding sw using bl br by simp linarith
  qed
  finally show ?thesis using sw by (simp add: stereo_average_def a_def b_def w_def)
qed


lemma stereo_merge_loop_inv:
  assumes "j = 2 * i" and "2 * n \<le> length pData"
  shows "\<exists>pData'. stereo_merge_loop i j n pData = Inr pData'
           \<and> length pData' = length pData
           \<and> (\<forall>k. k < i \<or> n \<le> k \<longrightarrow> pData' ! k = pData ! k)
           \<and> (\<forall>k. i \<le> k \<and> k < n \<longrightarrow>
                  pData' ! k = stereo_average (pData ! (2 * k)) (pData ! (2 * k + 1)))"
  using assms
proof (induction i j n pData rule: stereo_merge_loop.induct)
  case (1 i j n pData)
  show ?case
  proof (cases "i < n")
    case False
    then show ?thesis by (subst stereo_merge_loop.simps) auto
  next
    case True
    define buf1 where "buf1 = pData[i := stereo_average (pData ! j) (pData ! (j + 1))]"
    have inb: "j + 1 < length pData" using True "1.prems" by linarith
    have len1: "length buf1 = length pData" by (simp add: buf1_def)
    from "1.IH" [OF True inb] "1.prems" len1
    obtain pData' where r: "stereo_merge_loop (i + 1) (j + 2) n buf1 = Inr pData'"
      and l: "length pData' = length buf1"
      and keep: "\<forall>k. k < i + 1 \<or> n \<le> k \<longrightarrow> pData' ! k = buf1 ! k"
      and avg: "\<forall>k. i + 1 \<le> k \<and> k < n \<longrightarrow>
                  pData' ! k = stereo_average (buf1 ! (2 * k)) (buf1 ! (2 * k + 1))"
      unfolding buf1_def by auto
    have step: "stereo_merge_loop i j n pData = Inr pData'"
      using True inb r by (subst stereo_merge_loop.simps) (simp add: buf1_def)
    have i_lt: "i < length pData" using True "1.prems" by linarith
    have k1: "pData' ! k = pData ! k" if "k < i \<or> n \<le> k" for k
    proof -
      have "k \<noteq> i" using that True by auto
      then show ?thesis using keep that by (auto simp: buf1_def)
    qed
    have k2: "pData' ! k = stereo_average (pData ! (2 * k)) (pData ! (2 * k + 1))"
      if "i \<le> k \<and> k < n" for k
    proof (cases "k = i")
      case True
      then have "pData' ! k = buf1 ! i" using keep by simp
      then show ?thesis using True i_lt "1.prems" by (simp add: buf1_def)
    next
      case False
      then have "i + 1 \<le> k" using that by simp
      moreover have "2 * k \<noteq> i" "2 * k + 1 \<noteq> i" using \<open>i + 1 \<le> k\<close> by linarith+
      ultimately show ?thesis using avg that by (simp add: buf1_def)
    qed
    show ?thesis
    proof (intro exI conjI allI impI)
      show "stereo_merge_loop i j n pData = Inr pData'" by (rule step)
      show "length pData' = length pData" using l len1 by simp
      show "pData' ! k = pData ! k" if "k < i \<or> n \<le> k" for k using k1 that .
      show "pData' ! k = stereo_average (pData ! (2 * k)) (pData ! (2 * k + 1))"
        if "i \<le> k \<and> k < n" for k using k2 that .
    qed
  qed
qed


text \<open>
  Where the buffer holds the \<open>4 * n\<close> entries the loop reads for \<open>n\<close> pairs, the merge ends
  without a fault, the merged output is the first \<open>n\<close> entries of the buffer, and each
  is the mean of its pair as the shift computes it: \<open>(l + r) div 2\<close>.
\<close>

lemma stereo_merge_floor_mean:
  assumes "4 * n \<le> length pData"
  shows "\<exists>pData'. stereo_merge 2 (2 * n) pData = Inr (pData', n)
           \<and> length (take n pData') = n
           \<and> (\<forall>i<n. sint (take n pData' ! i)
                       = (sint (pData ! (2 * i)) + sint (pData ! (2 * i + 1))) div 2)"
proof -
  from stereo_merge_loop_inv [of 0 0 "2 * n" pData] assms
  obtain pData' where r: "stereo_merge_loop 0 0 (2 * n) pData = Inr pData'"
    and l: "length pData' = length pData"
    and avg: "\<forall>k. 0 \<le> k \<and> k < 2 * n \<longrightarrow>
                pData' ! k = stereo_average (pData ! (2 * k)) (pData ! (2 * k + 1))"
    by auto
  have "stereo_merge 2 (2 * n) pData = Inr (pData', n)"
    using r by (simp add: stereo_merge_def)
  moreover have "length (take n pData') = n" using l assms by simp
  moreover have "sint (take n pData' ! i) = (sint (pData ! (2 * i)) + sint (pData ! (2 * i + 1))) div 2"
    if "i < n" for i
    using that avg by (simp add: sint_stereo_average)
  ultimately show ?thesis by blast
qed

lemma stereo_merge_pair_100_300:
  "\<exists>pData'. stereo_merge 2 2 [100, 300, 0, 0] = Inr (pData', 1)
      \<and> length (take 1 pData') = 1 \<and> sint (take 1 pData' ! 0) = 200"
  using stereo_merge_floor_mean [of 1 "[100, 300, 0, 0]"] by simp

text \<open>
  The shift rounds the mean down: the pair (-1, 0) has the mean -1/2, which is 0 when
  rounded toward zero, and the merge writes -1. The two roundings agree on every pair
  whose sum is even or not negative.
\<close>

lemma stereo_merge_rounds_down:
  "stereo_merge 2 2 [- 1, 0, 0, 0] = Inr ([- 1, 0, 0, 0], 1)
   \<and> sint (- 1 :: data_t) = - 1
   \<and> spec_mean_toward_zero (- 1) 0 = 0"
proof -
  have "stereo_merge 2 2 [- 1, 0, 0, 0] = Inr ([- 1, 0, 0, 0], 1)" by code_simp
  moreover have "spec_mean_toward_zero (- 1) 0 = 0"
    by (simp add: spec_mean_toward_zero_def c_div_def)
  ultimately show ?thesis by simp
qed

text \<open>
  The loop runs once for every sample read, not once for every pair, and iteration \<open>i\<close>
  reads the entries \<open>2 * i\<close> and \<open>2 * i + 1\<close>. When the buffer is shorter than twice the
  count of samples read, the loop reads past its end.
\<close>

lemma stereo_merge_loop_overrun:
  assumes "j = 2 * i" and "i < n" and "length pData < 2 * n"
  shows "stereo_merge_loop i j n pData = Inl OutOfBounds"
  using assms
proof (induction i j n pData rule: stereo_merge_loop.induct)
  case (1 i j n pData)
  show ?case
  proof (cases "j + 1 < length pData")
    case False
    then show ?thesis using "1.prems"(2) by (subst stereo_merge_loop.simps) simp
  next
    case True
    define buf1 where "buf1 = pData[i := stereo_average (pData ! j) (pData ! (j + 1))]"
    have next_i: "i + 1 < n" using True "1.prems" by linarith
    have "stereo_merge_loop (i + 1) (j + 2) n buf1 = Inl OutOfBounds"
      unfolding buf1_def
      by (rule "1.IH" [OF "1.prems"(2) True]) (use "1.prems" next_i in simp_all)
    then show ?thesis
      using True "1.prems"(2) by (subst stereo_merge_loop.simps) (simp add: buf1_def)
  qed
qed

lemma stereo_merge_overrun:
  assumes "0 < samples" and "length pData < 2 * samples"
  shows "stereo_merge 2 samples pData = Inl OutOfBounds"
  using stereo_merge_loop_overrun [of 0 0 samples pData] assms
  by (simp add: stereo_merge_def)

text \<open>
  Claim C3: for every run of \<open>n\<close> stereo pairs the merged output has \<open>n\<close> samples, each
  the mean of its pair, and the pair (100, 300) merges to 200. Every slot of
  \<^verbatim>\<open>audio_buffer\<close> has \<open>MAX_DATA_POINTS_PER_URB\<close> entries, room for 25 packets of 385 pairs,
  and the sentinel after them. A full transfer of a stereo session at 384 kHz brings
  25 packets of 384 pairs: 9600 pairs, 19200 samples, here every pair (100, 300). The
  claim asks for 9600 samples of 200. The bound of the loop at line 375 is the count of
  samples, so the loop would run 19200 times; its iteration 9625 reads the sentinel as
  a left sample and the entry after the end of the slot as a right one.
\<close>

theorem C3_full_stereo_transfer_overruns:
  "int (length (concat (replicate 9600 [100, 300]) @ replicate 50 0 @ [CANARY_DATA_VALUE]))
     = MAX_DATA_POINTS_PER_URB + 1
   \<and> stereo_merge 2 19200
        (concat (replicate 9600 [100, 300]) @ replicate 50 0 @ [CANARY_DATA_VALUE])
     = Inl OutOfBounds"
proof -
  have len: "length (concat (replicate 9600 [100, 300 :: data_t]) @ replicate 50 0
                       @ [CANARY_DATA_VALUE]) = 19251"
    by (simp add: length_concat sum_list_replicate)
  have "stereo_merge 2 19200
          (concat (replicate 9600 [100, 300]) @ replicate 50 0 @ [CANARY_DATA_VALUE])
        = Inl OutOfBounds"
  proof (rule stereo_merge_overrun)
    show "0 < (19200 :: nat)" by simp
    show "length (concat (replicate 9600 [100, 300 :: data_t]) @ replicate 50 0
                    @ [CANARY_DATA_VALUE]) < 2 * 19200"
      unfolding len by simp
  qed
  moreover have "MAX_DATA_POINTS_PER_URB + 1 = 19251"
    by (simp add: MAX_DATA_POINTS_PER_URB_def MAX_SAMPLES_PER_FRAME_def MAX_CHANNELS_def
        PACKETS_PER_URB_def URBS_PER_SECOND_def)
  ultimately show ?thesis by (simp only: len) simp
qed

section \<open>Theorems: ring export\<close>

lemma copy_loop_result:
  assumes "i \<le> count" and "0 \<le> sp" and "sp + (count - i) \<le> int (length pSource)"
    and "0 \<le> tp" and "tp + (count - i) \<le> int (length pTarget)"
  shows "\<exists>buf. copy_loop i count pSource sp pTarget tp = Inr (buf, sp + (count - i))
           \<and> length buf = length pTarget
           \<and> (\<forall>k. buf ! k =
                 (if tp \<le> int k \<and> int k < tp + (count - i)
                  then pSource ! nat (sp + (int k - tp)) else pTarget ! k))"
  using assms
proof (induction i count pSource sp pTarget tp rule: copy_loop.induct)
  case (1 i count pSource sp pTarget tp)
  show ?case
  proof (cases "i < count")
    case False
    with "1.prems" have "i = count" by simp
    then show ?thesis by (subst copy_loop.simps) auto
  next
    case True
    define buf1 where "buf1 = pTarget[nat tp := pSource ! nat sp]"
    have inb: "0 \<le> sp \<and> sp < int (length pSource) \<and> 0 \<le> tp \<and> tp < int (length pTarget)"
      using True "1.prems" by linarith
    have len1: "length buf1 = length pTarget" by (simp add: buf1_def)
    have "\<exists>buf. copy_loop (i + 1) count pSource (sp + 1) buf1 (tp + 1)
                   = Inr (buf, sp + 1 + (count - (i + 1)))
           \<and> length buf = length buf1
           \<and> (\<forall>k. buf ! k =
                 (if tp + 1 \<le> int k \<and> int k < tp + 1 + (count - (i + 1))
                  then pSource ! nat (sp + 1 + (int k - (tp + 1))) else buf1 ! k))"
      unfolding buf1_def
      by (rule "1.IH" [OF True inb]) (use True "1.prems" in simp_all)
    then obtain buf where r: "copy_loop (i + 1) count pSource (sp + 1) buf1 (tp + 1)
                   = Inr (buf, sp + 1 + (count - (i + 1)))"
      and l: "length buf = length buf1"
      and nth: "\<And>k. buf ! k =
                 (if tp + 1 \<le> int k \<and> int k < tp + 1 + (count - (i + 1))
                  then pSource ! nat (sp + 1 + (int k - (tp + 1))) else buf1 ! k)"
      by blast
    have step: "copy_loop i count pSource sp pTarget tp = Inr (buf, sp + (count - i))"
      using True inb r by (subst copy_loop.simps) (simp add: buf1_def)
    have pt: "buf ! k = (if tp \<le> int k \<and> int k < tp + (count - i)
                  then pSource ! nat (sp + (int k - tp)) else pTarget ! k)" for k
    proof (cases "int k = tp")
      case True
      then have "k = nat tp" by simp
      moreover have "nat tp < length pTarget" using inb by linarith
      ultimately have "buf1 ! k = pSource ! nat sp" by (simp add: buf1_def)
      moreover have "buf ! k = buf1 ! k" using nth [of k] True by simp
      ultimately show ?thesis using True \<open>i < count\<close> by simp
    next
      case False
      then have "k \<noteq> nat tp" using inb by linarith
      then have b1: "buf1 ! k = pTarget ! k" by (simp add: buf1_def)
      show ?thesis
      proof (cases "tp + 1 \<le> int k \<and> int k < tp + (count - i)")
        case True
        then have "buf ! k = pSource ! nat (sp + 1 + (int k - (tp + 1)))" using nth [of k] by simp
        moreover have "sp + 1 + (int k - (tp + 1)) = sp + (int k - tp)" by simp
        ultimately show ?thesis using True by simp
      next
        case outside: False
        then have "buf ! k = buf1 ! k" using nth [of k] by auto
        then show ?thesis using outside False b1 by auto
      qed
    qed
    show ?thesis
    proof (intro exI conjI allI)
      show "copy_loop i count pSource sp pTarget tp = Inr (buf, sp + (count - i))" by (rule step)
      show "length buf = length pTarget" using l len1 by simp
      show "buf ! k = (if tp \<le> int k \<and> int k < tp + (count - i)
                  then pSource ! nat (sp + (int k - tp)) else pTarget ! k)" for k by (rule pt)
    qed
  qed
qed


lemma copyURBBufferData_tail3:
  assumes cap: "3 \<le> cap" and k: "3 \<le> k"
    and ls: "int (length pSource) = k" and lb: "int (length pBuffer) = cap"
  shows "\<exists>buf. copyURBBufferData pSource k (Some pBuffer) (cap - 3) cap
                 = Inr (min k (cap + 3), Some buf)
           \<and> length buf = length pBuffer
           \<and> (\<forall>j. buf ! j =
                  (if int j < min (k - 3) cap then pSource ! (j + 3)
                   else if cap - 3 \<le> int j \<and> int j < cap then pSource ! nat (int j - (cap - 3))
                   else pBuffer ! j))"
proof -
  from copy_loop_result [of 0 3 0 pSource "cap - 3" pBuffer] cap k ls lb
  obtain buf1 where r1: "copy_loop 0 3 pSource 0 pBuffer (cap - 3) = Inr (buf1, 3)"
    and l1: "length buf1 = length pBuffer"
    and n1: "\<And>j. buf1 ! j = (if cap - 3 \<le> int j \<and> int j < cap
                               then pSource ! nat (int j - (cap - 3)) else pBuffer ! j)"
    by auto
  define c2 where "c2 = min (k - 3) cap"
  have c2: "0 \<le> c2" "c2 \<le> k - 3" "c2 \<le> cap" using cap k by (simp_all add: c2_def)
  from copy_loop_result [of 0 c2 3 pSource 0 buf1] c2 ls lb l1
  obtain buf2 where r2: "copy_loop 0 c2 pSource 3 buf1 0 = Inr (buf2, 3 + c2)"
    and l2: "length buf2 = length buf1"
    and n2: "\<And>j. buf2 ! j = (if int j < c2 then pSource ! nat (3 + int j) else buf1 ! j)"
    by auto
  have n2': "buf2 ! j = (if int j < c2 then pSource ! (j + 3) else buf1 ! j)" for j
  proof -
    have "nat (3 + int j) = j + 3" by simp
    then show ?thesis using n2 [of j] by simp
  qed
  show ?thesis
  proof (cases "k = 3")
    case True
    then have "c2 = 0" using cap by (simp add: c2_def)
    have "copyURBBufferData pSource k (Some pBuffer) (cap - 3) cap = Inr (3, Some buf1)"
      using True r1 by (simp add: copyURBBufferData_def Let_def)
    then show ?thesis using True cap l1 n1 by (auto simp: min_def)
  next
    case False
    then have gt: "3 < k" using k by simp
    have p2: "(if k - 3 > cap then cap else k - 3) = c2" by (simp add: c2_def min_def)
    have "copyURBBufferData pSource k (Some pBuffer) (cap - 3) cap
            = Inr (k - (k - 3 - c2), Some buf2)"
      using gt r1 r2 p2 by (simp add: copyURBBufferData_def Let_def)
    moreover have "k - (k - 3 - c2) = min k (cap + 3)" by (simp add: c2_def min_def)
    ultimately have res: "copyURBBufferData pSource k (Some pBuffer) (cap - 3) cap
            = Inr (min k (cap + 3), Some buf2)" by simp
    show ?thesis
    proof (intro exI conjI allI)
      show "copyURBBufferData pSource k (Some pBuffer) (cap - 3) cap
              = Inr (min k (cap + 3), Some buf2)" by (rule res)
      show "length buf2 = length pBuffer" using l1 l2 by simp
      show "buf2 ! j =
                  (if int j < min (k - 3) cap then pSource ! (j + 3)
                   else if cap - 3 \<le> int j \<and> int j < cap then pSource ! nat (int j - (cap - 3))
                   else pBuffer ! j)" for j
        using n2' [of j] n1 [of j] by (simp add: c2_def)
    qed
  qed
qed

text \<open>
  Claim C4, amended. For every source of \<open>k \<ge> 3\<close> samples, every capacity
  \<open>cap \<ge> 3\<close> and the start offset \<open>cap - 3\<close>, the export copies 3 samples to the
  tail of the destination and then \<open>min (k - 3) cap\<close> samples to its head, and returns
  \<open>3 + min (k - 3) cap = min k (cap + 3)\<close>. When \<open>k \<le> cap\<close> that is \<open>k\<close>, with \<open>k - 3\<close>
  samples at the head, the 3 at the tail and the entries between untouched. When
  \<open>k > cap\<close> the copy is not cut to \<open>cap\<close>: the head copy runs over tail entries
  written just before, and the return value is \<open>min k (cap + 3)\<close>.
\<close>

theorem C4_ring_export_wrap:
  assumes cap: "3 \<le> cap" and k: "3 \<le> k"
    and ls: "int (length pSource) = k" and lb: "int (length pBuffer) = cap"
  shows "\<exists>buf. copyURBBufferData pSource k (Some pBuffer) (cap - 3) cap
                 = Inr (min k (cap + 3), Some buf)
           \<and> length buf = length pBuffer
           \<and> (\<forall>j. buf ! j =
                  (if int j < min (k - 3) cap then pSource ! (j + 3)
                   else if cap - 3 \<le> int j \<and> int j < cap then pSource ! nat (int j - (cap - 3))
                   else pBuffer ! j))
           \<and> (k \<le> cap \<longrightarrow>
                 buf = take (nat k - 3) (drop 3 pSource)
                       @ drop (nat k - 3) (take (nat cap - 3) pBuffer)
                       @ take 3 pSource)"
proof -
  from copyURBBufferData_tail3 [OF assms]
  obtain buf where r: "copyURBBufferData pSource k (Some pBuffer) (cap - 3) cap
                 = Inr (min k (cap + 3), Some buf)"
    and l: "length buf = length pBuffer"
    and n: "\<And>j. buf ! j =
                  (if int j < min (k - 3) cap then pSource ! (j + 3)
                   else if cap - 3 \<le> int j \<and> int j < cap then pSource ! nat (int j - (cap - 3))
                   else pBuffer ! j)"
    by blast
  have whole: "buf = take (nat k - 3) (drop 3 pSource)
                       @ drop (nat k - 3) (take (nat cap - 3) pBuffer)
                       @ take 3 pSource" if kc: "k \<le> cap"
  proof -
    define a where "a = nat k - 3"
    define c where "c = nat cap - 3"
    define A where "A = take a (drop 3 pSource)"
    define B where "B = drop a (take c pBuffer)"
    define C where "C = take 3 pSource"
    have lens: "length pSource = a + 3" "length pBuffer = c + 3" "a \<le> c"
      using ls lb cap k kc by (simp_all add: a_def c_def)
    have lA: "length A = a" and lB: "length B = c - a" and lC: "length C = 3"
      using lens by (simp_all add: A_def B_def C_def)
    have ik: "k = int a + 3" and ic: "cap = int c + 3" using cap k by (simp_all add: a_def c_def)
    have "buf = A @ B @ C"
    proof (rule nth_equalityI)
      show "length buf = length (A @ B @ C)" using l lens lA lB lC by simp
      fix j assume "j < length buf"
      then have jc: "j < c + 3" using l lens by simp
      consider (head) "j < a" | (mid) "a \<le> j" "j < c" | (tail) "c \<le> j" by linarith
      then show "buf ! j = (A @ B @ C) ! j"
      proof cases
        case head
        have h: "int j < min (k - 3) cap" using head ik ic lens by simp
        have "buf ! j = pSource ! (j + 3)" by (subst n) (simp only: h if_True)
        moreover have "(A @ B @ C) ! j = A ! j" using head lA by (simp add: nth_append)
        moreover have "A ! j = pSource ! (3 + j)" using head lens by (simp add: A_def)
        ultimately show ?thesis by (simp add: add.commute)
      next
        case mid
        have x: "\<not> int j < min (k - 3) cap" using mid ik ic by simp
        have y: "\<not> (cap - 3 \<le> int j \<and> int j < cap)" using mid ic by simp
        have "buf ! j = pBuffer ! j" by (subst n) (simp only: x y if_False)
        moreover have "(A @ B @ C) ! j = B ! (j - a)"
        proof -
          have "j - a < c - a" using mid by linarith
          then show ?thesis using mid lA lB by (simp add: nth_append)
        qed
        moreover have "B ! (j - a) = take c pBuffer ! (a + (j - a))"
          unfolding B_def by (rule nth_drop) (use lens in simp)
        moreover have "take c pBuffer ! (a + (j - a)) = pBuffer ! j" using mid by simp
        ultimately show ?thesis by simp
      next
        case tail
        have x: "\<not> int j < min (k - 3) cap" using tail ik ic lens by simp
        have y: "cap - 3 \<le> int j \<and> int j < cap" using tail jc ic by simp
        have "buf ! j = pSource ! nat (int j - (cap - 3))" by (subst n) (simp only: x y if_False if_True simp_thms)
        moreover have "nat (int j - (cap - 3)) = j - c" using ic tail by simp
        moreover have "(A @ B @ C) ! j = C ! (j - c)"
        proof -
          have "\<not> j < length A" using tail lA lens by simp
          then have "(A @ B @ C) ! j = (B @ C) ! (j - a)" using lA by (simp add: nth_append)
          also have "\<dots> = C ! (j - a - (c - a))"
          proof -
            have "\<not> j - a < length B" using tail lB lens by linarith
            then show ?thesis using lB by (simp add: nth_append)
          qed
          also have "j - a - (c - a) = j - c" using tail lens by simp
          finally show ?thesis .
        qed
        moreover have "C ! (j - c) = pSource ! (j - c)" using jc tail by (simp add: C_def)
        ultimately show ?thesis by simp
      qed
    qed
    then show ?thesis by (simp add: A_def B_def C_def a_def c_def)
  qed
  show ?thesis using r l n whole by blast
qed

theorem C4_witness:
  "\<exists>buf. copyURBBufferData [1, 2, 3, 4, 5] 5 (Some [0, 0, 0, 0, 0, 0, 0, 0]) 5 8 = Inr (5, Some buf)
      \<and> buf = [4, 5, 0, 0, 0, 1, 2, 3]"
  using C4_ring_export_wrap [of 8 5 "[1, 2, 3, 4, 5]" "[0, 0, 0, 0, 0, 0, 0, 0]"] by simp

text \<open>
  With \<open>cap = 10\<close>, offset 7 and \<open>k = 20\<close> the export returns 13, not 10, and the three
  samples first written to the tail are overwritten.
\<close>

theorem C4_counterexample:
  "copyURBBufferData [1, 2, 3, 4, 5, 6, 7, 8, 9, 10, 11, 12, 13, 14, 15, 16, 17, 18, 19, 20] 20
      (Some [0, 0, 0, 0, 0, 0, 0, 0, 0, 0]) 7 10
     = Inr (13, Some [4, 5, 6, 7, 8, 9, 10, 11, 12, 13])"
  by code_simp

section \<open>Theorems: anti-alias filter\<close>

lemma int32_cast_id: "is_int32 x \<Longrightarrow> int32_cast x = x"
  unfolding is_int32_def int32_cast_def
  by (simp add: sint_sbintrunc' signed_take_bit_int_eq_self)

lemma iir_stage_eq: "iir_stage c f p = p + (c * (f - p)) div 2 ^ 31"
proof -
  have "c * f + (2 ^ 31 - c) * p = c * (f - p) + p * 2 ^ 31" by (simp add: algebra_simps)
  then show ?thesis by (simp add: iir_stage_def)
qed

lemma iir_stage_up:
  assumes "0 \<le> c" and "c \<le> 2 ^ 31" and "p \<le> f"
  shows "p \<le> iir_stage c f p" and "iir_stage c f p \<le> f"
proof -
  have nonneg: "0 \<le> c * (f - p)" using assms by simp
  then have "0 \<le> (c * (f - p)) div 2 ^ 31" by (simp add: pos_imp_zdiv_nonneg_iff)
  then show "p \<le> iir_stage c f p" by (simp add: iir_stage_eq)
  have "c * (f - p) \<le> 2 ^ 31 * (f - p)" using assms by (intro mult_right_mono) simp_all
  then have "(c * (f - p)) div 2 ^ 31 \<le> (2 ^ 31 * (f - p)) div 2 ^ 31"
    by (intro zdiv_mono1) simp_all
  then show "iir_stage c f p \<le> f" by (simp add: iir_stage_eq)
qed

lemma iir_stage_down:
  assumes "0 < c" and "c \<le> 2 ^ 31" and "f < p"
  shows "f \<le> iir_stage c f p" and "iir_stage c f p < p"
proof -
  have neg: "c * (f - p) < 0" using assms by (simp add: mult_pos_neg)
  then have "(c * (f - p)) div 2 ^ 31 < 0" by (simp add: neg_imp_zdiv_neg_iff)
  then show "iir_stage c f p < p" by (simp add: iir_stage_eq)
  have "2 ^ 31 * (f - p) \<le> c * (f - p)" using assms by (intro mult_right_mono_neg) simp_all
  then have "(2 ^ 31 * (f - p)) div 2 ^ 31 \<le> (c * (f - p)) div 2 ^ 31"
    by (intro zdiv_mono1) simp_all
  then show "f \<le> iir_stage c f p" by (simp add: iir_stage_eq)
qed

lemma iir_stage_fixed:
  assumes "0 < c" and "iir_stage c f p = p"
  shows "p \<le> f" and "f - p \<le> dead_band c"
proof -
  have z: "(c * (f - p)) div 2 ^ 31 = 0" using assms(2) by (simp add: iir_stage_eq)
  then have "0 \<le> c * (f - p) \<and> c * (f - p) < 2 ^ 31"
    by (simp add: zdiv_eq_0_iff) linarith
  then have lo: "0 \<le> c * (f - p)" and hi: "c * (f - p) < 2 ^ 31" by simp_all
  show "p \<le> f" using lo assms(1) by (simp add: zero_le_mult_iff)
  have "(f - p) * c \<le> 2 ^ 31 - 1" using hi by (simp add: mult.commute)
  then have "((f - p) * c) div c \<le> (2 ^ 31 - 1) div c"
    using assms(1) by (intro zdiv_mono1) simp_all
  then show "f - p \<le> dead_band c" using assms(1) by (simp add: dead_band_def)
qed

lemma iir_stage_int32:
  assumes "0 \<le> c" and "c \<le> 2 ^ 31" and "is_int32 f" and "is_int32 p"
  shows "is_int32 (iir_stage c f p)"
proof (cases "p \<le> f")
  case True
  from iir_stage_up [OF assms(1,2) True] assms(3,4) show ?thesis
    unfolding is_int32_def by linarith
next
  case False
  then have "f < p" by simp
  show ?thesis
  proof (cases "c = 0")
    case True
    then show ?thesis using assms(4) by (simp add: iir_stage_eq)
  next
    case nz: False
    then have "0 < c" using assms(1) by simp
    from iir_stage_down [OF this assms(2) \<open>f < p\<close>] assms(3,4) show ?thesis
      unfolding is_int32_def by linarith
  qed
qed

lemma dead_band_nonneg: "0 < c \<Longrightarrow> 0 \<le> dead_band c"
  by (simp add: dead_band_def pos_imp_zdiv_nonneg_iff)

lemma stage_settles:
  assumes c: "0 < c" "c \<le> 2 ^ 31"
    and rec: "\<forall>n\<ge>N. p (Suc n) = iir_stage c v (p n)"
  shows "\<exists>M w. N \<le> M \<and> (\<forall>n\<ge>M. p n = w) \<and> v - dead_band c \<le> w \<and> w \<le> v"
  using rec
proof (induction "nat \<bar>v - p N\<bar>" arbitrary: N rule: less_induct)
  case less
  have next_eq: "p (Suc N) = iir_stage c v (p N)" using less.prems by blast
  show ?case
  proof (cases "iir_stage c v (p N) = p N")
    case True
    have const: "p n = p N" if "N \<le> n" for n
      using that
    proof (induction n rule: dec_induct)
      case base
      show ?case by (rule refl)
    next
      case (step n)
      have "p (Suc n) = iir_stage c v (p n)" using less.prems step.hyps(1) by blast
      also have "\<dots> = iir_stage c v (p N)" by (simp only: step.IH)
      also have "\<dots> = p N" by (rule True)
      finally show ?case .
    qed
    from iir_stage_fixed [OF c(1) True] have b: "p N \<le> v" "v - p N \<le> dead_band c" .
    show ?thesis
    proof (intro exI conjI allI impI)
      show "N \<le> N" by (rule order_refl)
      show "p n = p N" if "N \<le> n" for n using const that .
      show "v - dead_band c \<le> p N" using b(2) by linarith
      show "p N \<le> v" by (rule b(1))
    qed
  next
    case False
    define q where "q = iir_stage c v (p N)"
    have qne: "q \<noteq> p N" using False by (simp only: q_def not_False_eq_True)
    have closer: "nat \<bar>v - p (Suc N)\<bar> < nat \<bar>v - p N\<bar>"
    proof (cases "p N \<le> v")
      case True
      have "0 \<le> c" using c(1) by linarith
      from iir_stage_up [OF this c(2) True] have "p N \<le> q" "q \<le> v" by (simp_all only: q_def)
      then show ?thesis unfolding next_eq q_def [symmetric] using qne by linarith
    next
      case above: False
      then have "v < p N" by linarith
      from iir_stage_down [OF c this] have "v \<le> q" "q < p N" by (simp_all only: q_def)
      then show ?thesis unfolding next_eq q_def [symmetric] by linarith
    qed
    have rec': "\<forall>n\<ge>Suc N. p (Suc n) = iir_stage c v (p n)"
    proof (intro allI impI)
      fix n assume "Suc N \<le> n"
      then have "N \<le> n" by linarith
      then show "p (Suc n) = iir_stage c v (p n)" using less.prems by blast
    qed
    from less.hyps [OF closer rec']
    obtain M w where m: "Suc N \<le> M" "\<forall>n\<ge>M. p n = w" "v - dead_band c \<le> w" "w \<le> v" by blast
    show ?thesis
    proof (intro exI conjI)
      show "N \<le> M" using m(1) by linarith
      show "\<forall>n\<ge>M. p n = w" by (rule m(2))
      show "v - dead_band c \<le> w" by (rule m(3))
      show "w \<le> v" by (rule m(4))
    qed
  qed
qed

lemma filter_run_Nil: "filter_run c u n [] = []"
  by (induction n) simp_all

lemma filter_output_Nil: "filter_output c u n [] = u n"
  by (simp add: filter_output_def filter_run_Nil)

lemma filter_run_Cons:
  "filter_run c u n (p # ps) = stage_run c u n p # filter_run c (stage_out c u p) n ps"
proof (induction n)
  case 0
  show ?case by simp
next
  case (Suc n)
  show ?case by (simp add: Suc Let_def stage_out_def)
qed

lemma filter_output_Cons:
  "filter_output c u n (p # ps) = filter_output c (stage_out c u p) n ps"
  by (simp add: filter_output_def filter_run_Cons Let_def stage_out_def)

lemma stage_run_int32:
  assumes "0 \<le> c" and "c \<le> 2 ^ 31" and "\<forall>n. is_int32 (u n)" and "is_int32 p"
  shows "is_int32 (stage_run c u n p)"
proof (induction n)
  case 0
  show ?case using assms(4) by simp
next
  case (Suc n)
  have "is_int32 (iir_stage c (u n) (stage_run c u n p))"
    using assms(1,2) assms(3) [rule_format, of n] Suc by (rule iir_stage_int32)
  then show ?case by (simp add: int32_cast_id)
qed

lemma stage_run_Suc:
  assumes "0 \<le> c" and "c \<le> 2 ^ 31" and "\<forall>n. is_int32 (u n)" and "is_int32 p"
  shows "stage_run c u (Suc n) p = iir_stage c (u n) (stage_run c u n p)"
proof -
  have "is_int32 (iir_stage c (u n) (stage_run c u n p))"
    using assms(1,2) assms(3) [rule_format, of n] stage_run_int32 [OF assms] by (rule iir_stage_int32)
  then show ?thesis by (simp add: int32_cast_id)
qed

lemma stage_out_int32:
  assumes "0 \<le> c" and "c \<le> 2 ^ 31" and "\<forall>n. is_int32 (u n)" and "is_int32 p"
  shows "is_int32 (stage_out c u p n)"
  unfolding stage_out_def
  using assms(1,2) assms(3) [rule_format, of n] stage_run_int32 [OF assms] by (rule iir_stage_int32)

lemma cascade_settles:
  assumes c: "0 < c" "c \<le> 2 ^ 31"
    and u: "\<forall>n. is_int32 (u n)" and ps: "\<forall>p\<in>set ps. is_int32 p"
    and const: "\<forall>n\<ge>N. u n = v"
  shows "\<exists>M y. (\<forall>n\<ge>M. filter_output c u n ps = y)
            \<and> v - int (length ps) * dead_band c \<le> y \<and> y \<le> v"
  using u ps const
proof (induction ps arbitrary: u N v)
  case Nil
  show ?case
  proof (intro exI conjI)
    show "\<forall>n\<ge>N. filter_output c u n [] = v" using Nil.prems(3) by (simp add: filter_output_Nil)
    show "v - int (length ([] :: int list)) * dead_band c \<le> v" by simp
    show "v \<le> v" by simp
  qed
next
  case (Cons p ps)
  have c0: "0 \<le> c" using c(1) by linarith
  have p32: "is_int32 p" using Cons.prems(2) by simp
  define s where "s = (\<lambda>n. stage_run c u n p)"
  have rec: "\<forall>n\<ge>N. s (Suc n) = iir_stage c v (s n)"
  proof (intro allI impI)
    fix n assume "N \<le> n"
    then have "u n = v" using Cons.prems(3) by blast
    then show "s (Suc n) = iir_stage c v (s n)"
      using stage_run_Suc [OF c0 c(2) Cons.prems(1) p32, of n] by (simp add: s_def)
  qed
  from stage_settles [OF c rec]
  obtain M w where m: "N \<le> M" "\<forall>n\<ge>M. s n = w" "v - dead_band c \<le> w" "w \<le> v" by blast
  have out32: "\<forall>n. is_int32 (stage_out c u p n)"
    using stage_out_int32 [OF c0 c(2) Cons.prems(1) p32] by blast
  have out_const: "\<forall>n\<ge>M. stage_out c u p n = w"
  proof (intro allI impI)
    fix n assume mn: "M \<le> n"
    then have "N \<le> n" using m(1) by linarith
    then have "u n = v" using Cons.prems(3) by blast
    moreover have "s n = w" using m(2) mn by blast
    moreover have "s (Suc n) = w" using m(2) mn by simp
    moreover have "s (Suc n) = iir_stage c v (s n)" using rec \<open>N \<le> n\<close> by blast
    ultimately show "stage_out c u p n = w" by (simp add: stage_out_def s_def)
  qed
  have ps32: "\<forall>q\<in>set ps. is_int32 q" using Cons.prems(2) by simp
  from Cons.IH [OF out32 ps32 out_const]
  obtain M' y where y: "\<forall>n\<ge>M'. filter_output c (stage_out c u p) n ps = y"
    "w - int (length ps) * dead_band c \<le> y" "y \<le> w" by blast
  show ?case
  proof (intro exI conjI)
    show "\<forall>n\<ge>M'. filter_output c u n (p # ps) = y" using y(1) by (simp add: filter_output_Cons)
    have "int (length (p # ps)) * dead_band c = int (length ps) * dead_band c + dead_band c"
      by (simp add: algebra_simps)
    then show "v - int (length (p # ps)) * dead_band c \<le> y" using y(2) m(3) by linarith
    show "y \<le> v" using y(3) m(4) by linarith
  qed
qed

text \<open>
  Claim C6, amended. Each stage rounds down, so a stage that approaches its input from
  below stops as soon as \<open>coeff * (input - state) < 2^31\<close>, up to \<open>dead_band coeff\<close>
  short of the input; from above it reaches the input exactly. For every constant input
  \<open>x\<close> and coefficient in \<open>(0, 2^31)\<close>, from any 32-bit filter state, the output of
  the four-stage cascade is constant after finitely many samples, at a value \<open>y\<close> with
  \<open>x - 4 * dead_band coeff \<le> y \<le> x\<close>. It need not be \<open>x\<close>.
\<close>

theorem C6_cascade_settles_in_dead_band:
  assumes "0 < coeff" and "coeff < 2 ^ 31" and "is_int32 x"
    and "\<forall>p\<in>set previous. is_int32 p" and "length previous = DOWNSAMPLING_AA_STAGES"
  shows "\<exists>N y. (\<forall>n\<ge>N. filter_output coeff (\<lambda>k. x) n previous = y)
            \<and> x - 4 * dead_band coeff \<le> y \<and> y \<le> x"
proof -
  have le: "coeff \<le> 2 ^ 31" using assms(2) by linarith
  from cascade_settles [OF assms(1) le, of "\<lambda>k. x" previous 0 x] assms(3,4)
  obtain M y where "\<forall>n\<ge>M. filter_output coeff (\<lambda>k. x) n previous = y"
    "x - int (length previous) * dead_band coeff \<le> y" "y \<le> x" by auto
  then show ?thesis using assms(5) by (auto simp: DOWNSAMPLING_AA_STAGES_def)
qed

theorem C6_witness:
  "\<exists>N y. (\<forall>n\<ge>N. filter_output 102868919 (\<lambda>k. 1000000) n [0, 0, 0, 0] = y)
      \<and> 999920 \<le> y \<and> y \<le> 1000000"
  using C6_cascade_settles_in_dead_band [of 102868919 1000000 "[0, 0, 0, 0]"]
  by (simp add: is_int32_def DOWNSAMPLING_AA_STAGES_def dead_band_def)

text \<open>
  With the coefficient for a 384 kHz input (102868919) and the filter reset, the
  constant input 10 leaves every stage at 0: the output is 0 after any number of
  samples and never reaches 10.
\<close>

lemma filter_run_stuck: "filter_run 102868919 (\<lambda>k. 10) n [0, 0, 0, 0] = [0, 0, 0, 0]"
proof (induction n)
  case 0
  show ?case by simp
next
  case (Suc n)
  have "aa_filter 102868919 10 [0, 0, 0, 0] = (0, [0, 0, 0, 0])"
    by (simp add: iir_stage_def int32_cast_def Let_def)
  then show ?case by (simp add: Suc)
qed

theorem C6_counterexample:
  "\<forall>n. filter_output 102868919 (\<lambda>k. 10) n (replicate DOWNSAMPLING_AA_STAGES 0) = 0"
proof
  fix n
  have "aa_filter 102868919 10 [0, 0, 0, 0] = (0, [0, 0, 0, 0])"
    by (simp add: iir_stage_def int32_cast_def Let_def)
  moreover have "replicate DOWNSAMPLING_AA_STAGES 0 = [0, 0, 0, (0::int)]"
    by (simp add: DOWNSAMPLING_AA_STAGES_def numeral_eq_Suc)
  ultimately show "filter_output 102868919 (\<lambda>k. 10) n (replicate DOWNSAMPLING_AA_STAGES 0) = 0"
    by (simp add: filter_output_def filter_run_stuck)
qed

section \<open>Theorems: reference table\<close>

lemma reference_loop_result:
  assumes "0 \<le> i" and "i \<le> n" and "n \<le> int (length table)"
  shows "\<exists>t. reference_loop i n table = Inr (t, n)
           \<and> length t = length table
           \<and> (\<forall>k. t ! k = (if i \<le> int k \<and> int k < n then reference_sample n (int k)
                             else table ! k))"
  using assms
proof (induction i n table rule: reference_loop.induct)
  case (1 i n table)
  show ?case
  proof (cases "i < n")
    case False
    then have "i = n" using "1.prems" by linarith
    then show ?thesis by (subst reference_loop.simps) auto
  next
    case True
    define t1 where "t1 = table[nat i := reference_sample n i]"
    have inb: "0 \<le> i \<and> i < int (length table)" using True "1.prems" by linarith
    have len1: "length t1 = length table" by (simp add: t1_def)
    have "\<exists>t. reference_loop (i + 1) n t1 = Inr (t, n)
           \<and> length t = length t1
           \<and> (\<forall>k. t ! k = (if i + 1 \<le> int k \<and> int k < n then reference_sample n (int k)
                             else t1 ! k))"
      unfolding t1_def
      by (rule "1.IH" [OF True inb]) (use True "1.prems" in simp_all)
    then obtain t where r: "reference_loop (i + 1) n t1 = Inr (t, n)"
      and l: "length t = length t1"
      and nth: "\<And>k. t ! k = (if i + 1 \<le> int k \<and> int k < n then reference_sample n (int k)
                             else t1 ! k)"
      by blast
    have step: "reference_loop i n table = Inr (t, n)"
      using True inb r by (subst reference_loop.simps) (simp add: t1_def)
    have pt: "t ! k = (if i \<le> int k \<and> int k < n then reference_sample n (int k)
                             else table ! k)" for k
    proof (cases "int k = i")
      case eq: True
      then have k: "k = nat i" by simp
      have "nat i < length table" using inb by linarith
      then have "t1 ! k = reference_sample n i" by (simp add: t1_def k)
      moreover have "t ! k = t1 ! k" using nth [of k] eq by simp
      ultimately show ?thesis using eq True by simp
    next
      case ne: False
      then have "k \<noteq> nat i" using inb by linarith
      then have b1: "t1 ! k = table ! k" by (simp add: t1_def)
      show ?thesis
      proof (cases "i + 1 \<le> int k \<and> int k < n")
        case inside: True
        then show ?thesis using nth [of k] by simp
      next
        case outside: False
        have "t ! k = t1 ! k" by (subst nth) (simp only: outside if_False)
        then show ?thesis using outside ne b1 by auto
      qed
    qed
    show ?thesis
    proof (intro exI conjI allI)
      show "reference_loop i n table = Inr (t, n)" by (rule step)
      show "length t = length table" using l len1 by simp
      show "t ! k = (if i \<le> int k \<and> int k < n then reference_sample n (int k)
                             else table ! k)" for k by (rule pt)
    qed
  qed
qed

lemma generate_reference_result:
  assumes "0 \<le> n" and "n < int (length (s_reference_data st))"
  shows "\<exists>t. generate_reference n st = Inr (st\<lparr> s_reference_data := t, s_reference_len := n \<rparr>)
           \<and> length t = length (s_reference_data st)
           \<and> (\<forall>k. t ! k = (if int k < n then reference_sample n (int k)
                             else if int k = n then CANARY_DATA_VALUE
                             else s_reference_data st ! k))"
proof -
  from reference_loop_result [of 0 n "s_reference_data st"] assms
  obtain t0 where r: "reference_loop 0 n (s_reference_data st) = Inr (t0, n)"
    and l: "length t0 = length (s_reference_data st)"
    and nth: "\<And>k. t0 ! k = (if 0 \<le> int k \<and> int k < n then reference_sample n (int k)
                             else s_reference_data st ! k)"
    by auto
  define t where "t = t0[nat n := CANARY_DATA_VALUE]"
  have g: "generate_reference n st = Inr (st\<lparr> s_reference_data := t, s_reference_len := n \<rparr>)"
    using r l assms by (simp add: generate_reference_def t_def)
  have nn: "nat n < length t0" using assms l by linarith
  have pt: "t ! k = (if int k < n then reference_sample n (int k)
                             else if int k = n then CANARY_DATA_VALUE
                             else s_reference_data st ! k)" for k
  proof (cases "int k = n")
    case True
    then have "k = nat n" by simp
    then show ?thesis using nn True by (simp add: t_def)
  next
    case False
    then have "k \<noteq> nat n" using assms(1) by linarith
    then have "t ! k = t0 ! k" by (simp add: t_def)
    then show ?thesis using nth [of k] False by simp
  qed
  show ?thesis
  proof (intro exI conjI allI)
    show "generate_reference n st = Inr (st\<lparr> s_reference_data := t, s_reference_len := n \<rparr>)"
      by (rule g)
    show "length t = length (s_reference_data st)" using l by (simp add: t_def)
    show "t ! k = (if int k < n then reference_sample n (int k)
                             else if int k = n then CANARY_DATA_VALUE
                             else s_reference_data st ! k)" for k by (rule pt)
  qed
qed

lemma reference_table_ok_initial: "reference_table_ok usb_initial"
  by (auto simp: reference_table_ok_def usb_initial_def MAX_REFERENCE_LEN_def)


lemma startAudio_table:
  assumes ok: "reference_table_ok st"
    and n: "n = (if s_nominal_samples_per_frame st > MAX_REFERENCE_LEN then MAX_REFERENCE_LEN
                 else s_nominal_samples_per_frame st)"
    and n0: "0 \<le> n"
    and res: "startAudio st outcome h1 h2 boost = Inr (True, st')"
  shows "s_reference_len st' = n"
    and "length (s_reference_data st') = 513"
    and "\<forall>k. s_reference_data st' ! k =
               (if n = s_reference_len st then s_reference_data st ! k
                else if int k < n then reference_sample n (int k)
                else if int k = n then CANARY_DATA_VALUE
                else s_reference_data st ! k)"
proof -
  define sa where "sa = stop_audio_output (downsampling_filter_reset st)"
  have sa_tab: "s_reference_data sa = s_reference_data st" "s_reference_len sa = s_reference_len st"
    "s_nominal_samples_per_frame sa = s_nominal_samples_per_frame st"
    by (simp_all add: sa_def stop_audio_output_def downsampling_filter_reset_def)
  have len: "length (s_reference_data st) = 513" and nle: "n \<le> 512"
    using ok n by (auto simp: reference_table_ok_def MAX_REFERENCE_LEN_def)
  define upd where "upd = (\<lambda>s :: usb_state. s\<lparr> s_heterodyne1_kHz := h1, s_heterodyne2_kHz := h2,
                              s_audio_boost_shift := boost,
                              s_reference1_index := 0, s_reference2_index := 0 \<rparr>)"
  have eq: "startAudio st outcome h1 h2 boost =
     (if h1 > n \<or> h2 > n then Inr (False, sa)
      else (case (if n \<noteq> s_reference_len sa then generate_reference n sa else Inr sa) of
              Inl e \<Rightarrow> Inl e
            | Inr st1 \<Rightarrow> Inr (start_audio_output (upd st1) outcome)))"
    unfolding startAudio_def Let_def sa_def [symmetric] sa_tab(3) n [symmetric] upd_def
    by (rule refl)
  have acc: "\<not> (h1 > n \<or> h2 > n)"
  proof
    assume "h1 > n \<or> h2 > n"
    then have "startAudio st outcome h1 h2 boost = Inr (False, sa)"
      by (simp only: eq if_True)
    then show False using res by simp
  qed
  have sao_tab: "s_reference_data (snd (start_audio_output (upd s) outcome)) = s_reference_data s"
    "s_reference_len (snd (start_audio_output (upd s) outcome)) = s_reference_len s" for s
    by (cases outcome; simp add: start_audio_output_def upd_def)+
  show "s_reference_len st' = n"
    and "length (s_reference_data st') = 513"
    and "\<forall>k. s_reference_data st' ! k =
               (if n = s_reference_len st then s_reference_data st ! k
                else if int k < n then reference_sample n (int k)
                else if int k = n then CANARY_DATA_VALUE
                else s_reference_data st ! k)"
  proof (atomize (full), cases "n = s_reference_len st")
    case True
    have "startAudio st outcome h1 h2 boost = Inr (start_audio_output (upd sa) outcome)"
      using acc sa_tab(2) True by (simp add: eq)
    then have "st' = snd (start_audio_output (upd sa) outcome)" using res by (metis sum.inject(2) snd_conv)
    then show "s_reference_len st' = n \<and> length (s_reference_data st') = 513 \<and>
      (\<forall>k. s_reference_data st' ! k =
               (if n = s_reference_len st then s_reference_data st ! k
                else if int k < n then reference_sample n (int k)
                else if int k = n then CANARY_DATA_VALUE
                else s_reference_data st ! k))"
      using sao_tab [of sa] sa_tab True len by simp
  next
    case False
    have "n < int (length (s_reference_data sa))" using len nle sa_tab by simp
    from generate_reference_result [OF n0 this]
    obtain t where g: "generate_reference n sa = Inr (sa\<lparr> s_reference_data := t, s_reference_len := n \<rparr>)"
      and lt: "length t = length (s_reference_data sa)"
      and nth: "\<And>k. t ! k = (if int k < n then reference_sample n (int k)
                             else if int k = n then CANARY_DATA_VALUE
                             else s_reference_data sa ! k)"
      by blast
    have "startAudio st outcome h1 h2 boost
            = Inr (start_audio_output (upd (sa\<lparr> s_reference_data := t, s_reference_len := n \<rparr>)) outcome)"
      using acc sa_tab(2) False g by (simp add: eq)
    then have "st' = snd (start_audio_output (upd (sa\<lparr> s_reference_data := t, s_reference_len := n \<rparr>)) outcome)"
      using res by (metis sum.inject(2) snd_conv)
    then have "s_reference_len st' = n" "s_reference_data st' = t"
      using sao_tab [of "sa\<lparr> s_reference_data := t, s_reference_len := n \<rparr>"] by simp_all
    then show "s_reference_len st' = n \<and> length (s_reference_data st') = 513 \<and>
      (\<forall>k. s_reference_data st' ! k =
               (if n = s_reference_len st then s_reference_data st ! k
                else if int k < n then reference_sample n (int k)
                else if int k = n then CANARY_DATA_VALUE
                else s_reference_data st ! k))"
      using False lt len sa_tab nth by simp
  qed
qed


lemma startAudio_succeeds:
  assumes ok: "reference_table_ok st"
    and n: "n = (if s_nominal_samples_per_frame st > MAX_REFERENCE_LEN then MAX_REFERENCE_LEN
                 else s_nominal_samples_per_frame st)"
    and n0: "0 \<le> n" and h: "h1 \<le> n" "h2 \<le> n"
  shows "\<exists>st'. startAudio st Started h1 h2 boost = Inr (True, st')"
proof -
  define sa where "sa = stop_audio_output (downsampling_filter_reset st)"
  have sa_tab: "s_reference_data sa = s_reference_data st" "s_reference_len sa = s_reference_len st"
    "s_nominal_samples_per_frame sa = s_nominal_samples_per_frame st"
    by (simp_all add: sa_def stop_audio_output_def downsampling_filter_reset_def)
  have len: "length (s_reference_data st) = 513" and nle: "n \<le> 512"
    using ok n by (auto simp: reference_table_ok_def MAX_REFERENCE_LEN_def)
  define upd where "upd = (\<lambda>s :: usb_state. s\<lparr> s_heterodyne1_kHz := h1, s_heterodyne2_kHz := h2,
                              s_audio_boost_shift := boost,
                              s_reference1_index := 0, s_reference2_index := 0 \<rparr>)"
  have eq: "startAudio st Started h1 h2 boost =
     (if h1 > n \<or> h2 > n then Inr (False, sa)
      else (case (if n \<noteq> s_reference_len sa then generate_reference n sa else Inr sa) of
              Inl e \<Rightarrow> Inl e
            | Inr st1 \<Rightarrow> Inr (start_audio_output (upd st1) Started)))"
    unfolding startAudio_def Let_def sa_def [symmetric] sa_tab(3) n [symmetric] upd_def
    by (rule refl)
  have "n < int (length (s_reference_data sa))" using len nle sa_tab by simp
  from generate_reference_result [OF n0 this]
  obtain t where g: "generate_reference n sa = Inr (sa\<lparr> s_reference_data := t, s_reference_len := n \<rparr>)"
    by blast
  show ?thesis using h g by (simp add: eq start_audio_output_def)
qed

text \<open>
  Claim C7, amended. \<open>startAudio\<close> clamps the table length to \<open>MAX_REFERENCE_LEN\<close>, so
  the table has \<open>s\<close> entries only for \<open>s \<le> 512\<close>. From a well-formed table, for a session
  with \<open>1 \<le> s \<le> 512\<close> samples per millisecond, after a \<open>startAudio\<close> that returns true:
  the table length is \<open>s\<close>; entry \<open>i\<close> is \<open>cos (i * pi2 / s) * 0x7FFE\<close> truncated to
  16 bits, with the source's \<open>pi2 = 2 * 3.1415927\<close>; the sentinel is at index \<open>s\<close>;
  the entries after it are as before; and when \<open>s\<close> is the previous length the whole
  array is as before.
\<close>

theorem C7_reference_table:
  assumes ok: "reference_table_ok st"
    and s: "s_nominal_samples_per_frame st = s" and s1: "1 \<le> s" and s2: "s \<le> MAX_REFERENCE_LEN"
    and res: "startAudio st outcome h1 h2 boost = Inr (True, st')"
  shows "s_reference_len st' = s
       \<and> (\<forall>i. 0 \<le> i \<and> i < s \<longrightarrow> s_reference_data st' ! nat i = reference_sample s i)
       \<and> s_reference_data st' ! nat s = CANARY_DATA_VALUE
       \<and> length (s_reference_data st') = 513
       \<and> (\<forall>k. s < int k \<longrightarrow> s_reference_data st' ! k = s_reference_data st ! k)
       \<and> (s = s_reference_len st \<longrightarrow> s_reference_data st' = s_reference_data st)"
proof -
  have n: "s = (if s_nominal_samples_per_frame st > MAX_REFERENCE_LEN then MAX_REFERENCE_LEN
                 else s_nominal_samples_per_frame st)" using s s2 by simp
  have s0: "0 \<le> s" using s1 by linarith
  note t = startAudio_table [OF ok n s0 res]
  have len: "length (s_reference_data st) = 513" using ok by (simp add: reference_table_ok_def)
  have nth: "s_reference_data st' ! k =
               (if s = s_reference_len st then s_reference_data st ! k
                else if int k < s then reference_sample s (int k)
                else if int k = s then CANARY_DATA_VALUE
                else s_reference_data st ! k)" for k
    using t(3) by blast
  have entries: "s_reference_data st' ! nat i = reference_sample s i" if "0 \<le> i \<and> i < s" for i
  proof (cases "s = s_reference_len st")
    case True
    then have "s_reference_data st ! nat i = reference_sample s i"
      using ok that by (simp add: reference_table_ok_def)
    then show ?thesis using nth [of "nat i"] True by simp
  next
    case False
    then show ?thesis using nth [of "nat i"] that by simp
  qed
  have sentinel: "s_reference_data st' ! nat s = CANARY_DATA_VALUE"
  proof (cases "s = s_reference_len st")
    case True
    then have "s_reference_data st ! nat s = CANARY_DATA_VALUE"
      using ok s1 by (simp add: reference_table_ok_def)
    then show ?thesis using nth [of "nat s"] True by simp
  next
    case False
    then show ?thesis using nth [of "nat s"] s0 by simp
  qed
  have beyond: "s_reference_data st' ! k = s_reference_data st ! k" if "s < int k" for k
    using nth [of k] that by simp
  have same: "s_reference_data st' = s_reference_data st" if "s = s_reference_len st"
  proof (rule nth_equalityI)
    show "length (s_reference_data st') = length (s_reference_data st)" using t(2) len by simp
    show "s_reference_data st' ! k = s_reference_data st ! k" for k using nth [of k] that by simp
  qed
  show ?thesis using t(1,2) entries sentinel beyond same by blast
qed

text \<open>A well-formed table stays well-formed: at capture start, and through \<open>startAudio\<close>.\<close>

lemma startAudio_keeps_table_ok:
  assumes ok: "reference_table_ok st" and s0: "0 \<le> s_nominal_samples_per_frame st"
    and res: "startAudio st outcome h1 h2 boost = Inr (True, st')"
  shows "reference_table_ok st'"
proof -
  define n where "n = (if s_nominal_samples_per_frame st > MAX_REFERENCE_LEN then MAX_REFERENCE_LEN
                 else s_nominal_samples_per_frame st)"
  have n0: "0 \<le> n" and n512: "n \<le> MAX_REFERENCE_LEN"
    using s0 by (simp_all add: n_def MAX_REFERENCE_LEN_def)
  note t = startAudio_table [OF ok n_def n0 res]
  have nth: "s_reference_data st' ! k =
               (if n = s_reference_len st then s_reference_data st ! k
                else if int k < n then reference_sample n (int k)
                else if int k = n then CANARY_DATA_VALUE
                else s_reference_data st ! k)" for k
    using t(3) by blast
  have entries: "s_reference_data st' ! nat i = reference_sample n i" if "0 \<le> i \<and> i < n" for i
  proof (cases "n = s_reference_len st")
    case True
    then have "s_reference_data st ! nat i = reference_sample n i"
      using ok that by (simp add: reference_table_ok_def)
    then show ?thesis using nth [of "nat i"] True by simp
  next
    case False
    then show ?thesis using nth [of "nat i"] that by simp
  qed
  have sentinel: "s_reference_data st' ! nat n = CANARY_DATA_VALUE" if "0 < n"
  proof (cases "n = s_reference_len st")
    case True
    then have "s_reference_data st ! nat n = CANARY_DATA_VALUE"
      using ok that by (simp add: reference_table_ok_def)
    then show ?thesis using nth [of "nat n"] True by simp
  next
    case False
    then show ?thesis using nth [of "nat n"] n0 by simp
  qed
  show ?thesis
    unfolding reference_table_ok_def t(1)
    using t(2) n0 n512 entries sentinel by blast
qed

lemma reference_table_ok_stream_setup:
  "reference_table_ok st \<Longrightarrow> reference_table_ok (stream_setup st ch rate)"
  by (simp add: reference_table_ok_def stream_setup_def Let_def)

theorem C7_witness:
  "\<exists>st'. startAudio (stream_setup usb_initial 1 1000) Started 0 0 0 = Inr (True, st')
      \<and> s_reference_len st' = 1
      \<and> s_reference_data st' ! 0 = 0x7FFE
      \<and> s_reference_data st' ! 1 = 0xFACE"
proof -
  let ?st = "stream_setup usb_initial 1 1000"
  have ok: "reference_table_ok ?st"
    by (rule reference_table_ok_stream_setup [OF reference_table_ok_initial])
  have s: "s_nominal_samples_per_frame ?st = 1"
    by (simp add: stream_setup_def Let_def c_div_def)
  from startAudio_succeeds [OF ok, of 1 0 0 0] s
  obtain st' where res: "startAudio ?st Started 0 0 0 = Inr (True, st')"
    by (auto simp: MAX_REFERENCE_LEN_def)
  have rs: "reference_sample 1 0 = 0x7FFE" by (simp add: reference_sample_def)
  from C7_reference_table [OF ok s _ _ res]
  have a: "s_reference_len st' = 1"
    and b: "\<forall>i. 0 \<le> i \<and> i < 1 \<longrightarrow> s_reference_data st' ! nat i = reference_sample 1 i"
    and c: "s_reference_data st' ! nat 1 = CANARY_DATA_VALUE"
    by (simp_all add: MAX_REFERENCE_LEN_def)
  from b [rule_format, of 0] rs have "s_reference_data st' ! 0 = 0x7FFE" by simp
  moreover from c have "s_reference_data st' ! 1 = 0xFACE" by (simp add: CANARY_DATA_VALUE_def)
  ultimately show ?thesis using res a by blast
qed

text \<open>
  A capture started at 600000 Hz has 600 samples per millisecond (the range check at
  line 215 only logs); \<open>startAudio\<close> then builds a table of 512 entries.
\<close>

theorem C7_counterexample:
  "s_nominal_samples_per_frame (stream_setup usb_initial 1 600000) = 600
   \<and> (\<exists>st'. startAudio (stream_setup usb_initial 1 600000) Started 0 0 0 = Inr (True, st')
          \<and> s_reference_len st' = 512)"
proof -
  let ?st = "stream_setup usb_initial 1 600000"
  have ok: "reference_table_ok ?st"
    by (rule reference_table_ok_stream_setup [OF reference_table_ok_initial])
  have s: "s_nominal_samples_per_frame ?st = 600"
    by (simp add: stream_setup_def Let_def c_div_def)
  have n: "512 = (if s_nominal_samples_per_frame ?st > MAX_REFERENCE_LEN then MAX_REFERENCE_LEN
                 else s_nominal_samples_per_frame ?st)"
    using s by (simp add: MAX_REFERENCE_LEN_def)
  from startAudio_succeeds [OF ok n, of 0 0 0]
  obtain st' where res: "startAudio ?st Started 0 0 0 = Inr (True, st')" by auto
  from startAudio_table(1) [OF ok n _ res] have "s_reference_len st' = 512" by simp
  then show ?thesis using s res by blast
qed

section \<open>Theorems: heterodyne tones\<close>




lemma write_audio_samples_index:
  assumes "write_audio_samples xs st counter out = Inr (st', out')"
  shows "s_reference1_index st'
           = ((\<lambda>i. advance_reference i (s_heterodyne1_kHz st) (s_reference_len st)) ^^ length xs)
               (s_reference1_index st)
       \<and> s_heterodyne1_kHz st' = s_heterodyne1_kHz st \<and> s_reference_len st' = s_reference_len st"
  using assms
proof (induction xs arbitrary: st counter out)
  case Nil
  then show ?case by simp
next
  case (Cons x xs)
  from Cons.prems obtain mixed where m: "mix_sample st x = Inr mixed"
    by (auto split: sum.splits)
  define r where "r = aa_filter (s_downsampling_iir_coefficient st) mixed (s_downsampling_filter_state st)"
  define st1 where "st1 = st\<lparr> s_downsampling_filter_state := snd r \<rparr>"
  define st2 where "st2 = st1\<lparr> s_reference1_index :=
                             advance_reference (s_reference1_index st1) (s_heterodyne1_kHz st1)
                               (s_reference_len st1),
                           s_reference2_index :=
                             advance_reference (s_reference2_index st1) (s_heterodyne2_kHz st1)
                               (s_reference_len st1) \<rparr>"
  from Cons.prems m obtain counter2 out1 where
    rest: "write_audio_samples xs st2 counter2 out1 = Inr (st', out')"
    by (auto simp: Let_def r_def st1_def st2_def split: sum.splits if_splits)
  note ih = Cons.IH [OF rest]
  have f: "s_reference1_index st2 = advance_reference (s_reference1_index st) (s_heterodyne1_kHz st) (s_reference_len st)"
    "s_heterodyne1_kHz st2 = s_heterodyne1_kHz st" "s_reference_len st2 = s_reference_len st"
    by (simp_all add: st2_def st1_def)
  define F where "F = (\<lambda>i. advance_reference i (s_heterodyne1_kHz st) (s_reference_len st))"
  have "(F ^^ length (x # xs)) (s_reference1_index st) = (F ^^ length xs) (F (s_reference1_index st))"
    by (simp add: funpow_swap1)
  moreover have "s_reference1_index st' = (F ^^ length xs) (F (s_reference1_index st))"
    using ih by (simp add: f F_def)
  ultimately show ?case using ih by (simp add: f F_def)
qed




text \<open>
  What that means for \<open>write_audio_output\<close>: with a one-entry table and the tone 600,
  the second sample is mixed with \<open>s_reference_data[599]\<close>, outside the array.
\<close>

lemma write_audio_output_leaves_table:
  "write_audio_output
     (usb_initial\<lparr> s_reference_data := (replicate 513 0)[0 := 0x7FFE, 1 := 0xFACE], s_reference_len := 1,
                    s_decimation_factor := 1, s_heterodyne1_kHz := 600 \<rparr>)
     [1, 1] = Inl OutOfBounds"
  by (simp add: write_audio_output_def mix_sample_def usb_initial_def Let_def
      advance_reference_def decimate_sample_def MAX_DATA_POINTS_PER_URB_def
      MAX_SAMPLES_PER_FRAME_def MAX_CHANNELS_def PACKETS_PER_URB_def URBS_PER_SECOND_def)

section \<open>Theorems: capture loop\<close>

text \<open>
  In the juggling loop the counter follows the transfers really outstanding: whatever
  the device answers, the difference between the two is the one the loop started with.
\<close>

lemma juggle_keeps_balance:
  "balls_in_the_air (final_juggler (juggle ph es j)) - outstanding (final_juggler (juggle ph es j))
     = balls_in_the_air j - outstanding j"
proof (induction ph es j rule: juggle.induct)
  case (1 check j)
  show ?case by simp
next
  case (2 j)
  show ?case by simp
next
  case (3 check ret c es j)
  then show ?case
    by (cases ret) (auto simp: Let_def outstanding_def)
next
  case (4 ret c es j)
  then show ?case
    by (cases ret) (auto simp: Let_def outstanding_def)
qed

text \<open>
  The first submission of a slot counts every attempt: \<open>k\<close> interrupted calls before
  the one that succeeds raise the counter by \<open>k + 1\<close> for one transfer submitted.
\<close>

lemma submit_first_interrupted:
  "submit_first (replicate k (Failure EINTR, c) @ (Success, c') # es) j
     = Inr (j\<lparr> balls_in_the_air := balls_in_the_air j + int k + 1,
                last_ret := Success,
                submitted := submitted j + 1 \<rparr>, es)"
proof (induction k arbitrary: j)
  case 0
  show ?case by (simp add: Let_def)
next
  case (Suc k)
  show ?case by (simp add: Suc Let_def)
qed

text \<open>
  Claim C1 asks that the counter rise only on a successful submission, for every
  sequence of outcomes. The first submission of slot 0 is interrupted once (\<open>EINTR\<close>)
  and then succeeds, as do the other nine; cancellation is requested during the first
  wait, and all ten transfers complete. The counter is then 1 with no transfer
  outstanding, and the loop is back in \<^verbatim>\<open>USBDEVFS_REAPURB\<close>, waiting for a completion that
  cannot come.
\<close>

theorem C1_interrupted_first_submission_overcounts:
  "stream_loop ((Failure EINTR, False) # replicate 10 (Success, False)
                  @ (Success, True) # replicate 9 (Success, False))
     = Waiting \<lparr> balls_in_the_air = 1, cancel_pending = True, last_ret = Success,
                 submitted = 10, reaped = 10 \<rparr>"
  by code_simp

text \<open>The same run without the interruption drains and returns 0.\<close>

lemma stream_loop_clean_run:
  "stream_loop (replicate 10 (Success, False) @ (Success, True) # replicate 9 (Success, False))
     = Returned None \<lparr> balls_in_the_air = 0, cancel_pending = True, last_ret = Success,
                       submitted = 10, reaped = 10 \<rparr>"
  by code_simp

section \<open>Theorems: windowed FFT\<close>

text \<open>
  A successful \<open>initFft\<close> leaves the transform ready; a failed one leaves no context, and
  \<open>doFft\<close> then faults on its first window.
\<close>

lemma initFft_ready:
  assumes "0 < n"
  shows "\<exists>st'. initFft st True True n = Inr (0, st') \<and> fft_ready st' \<and> s_fft_window_size st' = n"
proof -
  have "nat (n div 2 + 1 + 1) - 1 = nat (n div 2 + 1)" using assms by linarith
  moreover have "int (nat (n div 2 + 1)) + 1 = n div 2 + 1 + 1" using assms by simp
  ultimately show ?thesis
    using assms by (simp add: initFft_def cleanup_fft_def Let_def c_div_def fft_ready_def)
qed

lemma initFft_failed:
  assumes "\<not> cfg_ok \<or> \<not> temp_ok"
  shows "\<exists>st'. initFft st cfg_ok temp_ok n = Inr (- 1, st')
           \<and> kfft_cfg st' = None \<and> s_fft_temp_buffer st' = None"
  using assms by (auto simp add: initFft_def cleanup_fft_def Let_def)

lemma doFft_without_context:
  assumes "kfft_cfg st = None \<or> s_fft_temp_buffer st = None" and "0 < num_windows"
  shows "doFft st num_windows input output a = Inl NullPointer"
  using assms
  by (subst doFft_def, subst fft_windows.simps) (auto simp add: Let_def split: option.splits)

lemma kiss_fftr_silence:
  assumes "\<forall>x\<in>set w. x = 0" and "length w = n"
  shows "kiss_fftr n w = replicate (n div 2 + 1) 0"
proof -
  have "w ! k = 0" if "k < n" for k using assms that by simp
  then have "(\<Sum>k<n. complex_of_real (w ! k) * cis (- 2 * pi * real j * real k / real n)) = 0" for j
    by simp
  then show ?thesis by (simp add: kiss_fftr_def map_replicate_const)
qed

lemma fft_bucket_silence:
  assumes "0 \<le> transformed_buffer_index a + transformedIndex l"
    and "transformed_buffer_index a + transformedIndex l < int (length (transformedData l))"
  shows "fft_bucket a normalizer2 j 0 l
           = Inr (l\<lparr> transformedData :=
                        (transformedData l)[nat (transformed_buffer_index a + transformedIndex l) := minDB a],
                      transformedIndex := transformedIndex l + 1,
                      triggered := (triggered l \<or> (trigger_threshold a \<le> minDB a
                          \<and> min_trigger_bucket a \<le> j \<and> j \<le> max_trigger_bucket a)) \<rparr>)"
  using assms by (auto simp add: fft_bucket_def Let_def)

lemma fft_buckets_silence:
  assumes temp: "\<forall>k. int k < buckets \<longrightarrow> k < length temp \<and> temp ! k = 0"
    and j: "0 \<le> j" "j \<le> buckets"
    and room: "0 \<le> transformed_buffer_index a + transformedIndex l"
      "transformed_buffer_index a + transformedIndex l + (buckets - j)
         \<le> int (length (transformedData l))"
  shows "\<exists>l'. fft_buckets a normalizer2 temp buckets j l = Inr l'
           \<and> transformedIndex l' = transformedIndex l + (buckets - j)
           \<and> triggered l' = (triggered l \<or> (trigger_threshold a \<le> minDB a
                 \<and> (\<exists>i. j \<le> i \<and> i < buckets
                        \<and> min_trigger_bucket a \<le> i \<and> i \<le> max_trigger_bucket a)))
           \<and> length (transformedData l') = length (transformedData l)
           \<and> (\<forall>k. transformedData l' ! k =
                 (if transformed_buffer_index a + transformedIndex l \<le> int k
                     \<and> int k < transformed_buffer_index a + transformedIndex l + (buckets - j)
                  then minDB a else transformedData l ! k))"
  using assms
proof (induction a normalizer2 temp buckets j l rule: fft_buckets.induct)
  case (1 a normalizer2 temp buckets j l)
  note temp = "1.prems"(1) and j = "1.prems"(2,3) and room = "1.prems"(4,5)
  define T where "T = (trigger_threshold a \<le> minDB a)"
  define R where "R = (\<lambda>i. min_trigger_bucket a \<le> i \<and> i \<le> max_trigger_bucket a)"
  show ?case
  proof (cases "j < buckets")
    case False
    then have "j = buckets" using j by linarith
    then show ?thesis by (subst fft_buckets.simps) auto
  next
    case jb: True
    define pos where "pos = transformed_buffer_index a + transformedIndex l"
    define l1 where "l1 = l\<lparr> transformedData := (transformedData l)[nat pos := minDB a],
                      transformedIndex := transformedIndex l + 1,
                      triggered := (triggered l \<or> (trigger_threshold a \<le> minDB a
                          \<and> min_trigger_bucket a \<le> j \<and> j \<le> max_trigger_bucket a)) \<rparr>"
    have tj: "nat j < length temp" "temp ! nat j = 0"
      using temp [rule_format, of "nat j"] jb j(1) by simp_all
    have inb: "0 \<le> j \<and> j < int (length temp)" using tj j(1) by linarith
    have posb: "0 \<le> pos" "pos < int (length (transformedData l))"
      using room jb by (simp_all add: pos_def)
    have b: "fft_bucket a normalizer2 j (temp ! nat j) l = Inr l1"
      unfolding tj(2) l1_def pos_def
      by (rule fft_bucket_silence) (use posb in \<open>simp_all add: pos_def\<close>)
    have l1f: "transformedIndex l1 = transformedIndex l + 1"
      "triggered l1 = (triggered l \<or> (T \<and> R j))"
      "length (transformedData l1) = length (transformedData l)"
      by (simp_all add: l1_def T_def R_def)
    have "\<exists>l'. fft_buckets a normalizer2 temp buckets (j + 1) l1 = Inr l'
           \<and> transformedIndex l' = transformedIndex l1 + (buckets - (j + 1))
           \<and> triggered l' = (triggered l1 \<or> (trigger_threshold a \<le> minDB a
                 \<and> (\<exists>i. j + 1 \<le> i \<and> i < buckets
                        \<and> min_trigger_bucket a \<le> i \<and> i \<le> max_trigger_bucket a)))
           \<and> length (transformedData l') = length (transformedData l1)
           \<and> (\<forall>k. transformedData l' ! k =
                 (if transformed_buffer_index a + transformedIndex l1 \<le> int k
                     \<and> int k < transformed_buffer_index a + transformedIndex l1 + (buckets - (j + 1))
                  then minDB a else transformedData l1 ! k))"
      by (rule "1.IH" [OF jb inb b temp]) (use jb j room l1f posb in \<open>simp_all add: pos_def\<close>)
    then obtain l' where r: "fft_buckets a normalizer2 temp buckets (j + 1) l1 = Inr l'"
      and idx: "transformedIndex l' = transformedIndex l1 + (buckets - (j + 1))"
      and trg: "triggered l' = (triggered l1 \<or> (T \<and> (\<exists>i. j + 1 \<le> i \<and> i < buckets \<and> R i)))"
      and len: "length (transformedData l') = length (transformedData l1)"
      and nth: "\<And>k. transformedData l' ! k =
                 (if pos + 1 \<le> int k \<and> int k < pos + 1 + (buckets - (j + 1))
                  then minDB a else transformedData l1 ! k)"
      unfolding l1f(1) pos_def T_def R_def by (auto simp: add.assoc)
    have step: "fft_buckets a normalizer2 temp buckets j l = Inr l'"
      using jb inb b r by (subst fft_buckets.simps) simp
    have ex_split: "(\<exists>i. j \<le> i \<and> i < buckets \<and> R i)
                      = (R j \<or> (\<exists>i. j + 1 \<le> i \<and> i < buckets \<and> R i))"
    proof
      assume "\<exists>i. j \<le> i \<and> i < buckets \<and> R i"
      then obtain i where i: "j \<le> i" "i < buckets" "R i" by blast
      show "R j \<or> (\<exists>i. j + 1 \<le> i \<and> i < buckets \<and> R i)"
      proof (cases "i = j")
        case True
        then show ?thesis using i by simp
      next
        case False
        then have "j + 1 \<le> i" using i by simp
        then show ?thesis using i by blast
      qed
    next
      assume "R j \<or> (\<exists>i. j + 1 \<le> i \<and> i < buckets \<and> R i)"
      then show "\<exists>i. j \<le> i \<and> i < buckets \<and> R i"
      proof
        assume "R j"
        then have "j \<le> j \<and> j < buckets \<and> R j" using jb by simp
        then show ?thesis by (rule exI)
      next
        assume "\<exists>i. j + 1 \<le> i \<and> i < buckets \<and> R i"
        then obtain i where "j + 1 \<le> i" "i < buckets" "R i" by blast
        then have "j \<le> i \<and> i < buckets \<and> R i" by simp
        then show ?thesis by (rule exI)
      qed
    qed
    have trg': "triggered l' = (triggered l \<or> (T \<and> (\<exists>i. j \<le> i \<and> i < buckets \<and> R i)))"
      unfolding trg l1f(2) ex_split by blast
    have pt: "transformedData l' ! k =
                 (if pos \<le> int k \<and> int k < pos + (buckets - j)
                  then minDB a else transformedData l ! k)" for k
    proof (cases "int k = pos")
      case eq: True
      then have k: "k = nat pos" by simp
      have "nat pos < length (transformedData l)" using posb by linarith
      then have "transformedData l1 ! k = minDB a" by (simp add: l1_def k)
      moreover have "transformedData l' ! k = transformedData l1 ! k"
        using nth [of k] eq by simp
      ultimately show ?thesis using eq jb by simp
    next
      case ne: False
      then have "k \<noteq> nat pos" using posb by linarith
      then have b1: "transformedData l1 ! k = transformedData l ! k" by (simp add: l1_def)
      show ?thesis
      proof (cases "pos + 1 \<le> int k \<and> int k < pos + (buckets - j)")
        case inside: True
        then show ?thesis using nth [of k] by simp
      next
        case outside: False
        then have o: "\<not> (pos + 1 \<le> int k \<and> int k < pos + 1 + (buckets - (j + 1)))" by simp
        have "transformedData l' ! k = transformedData l1 ! k"
          by (subst nth) (simp only: o if_False)
        then show ?thesis using outside ne b1 by auto
      qed
    qed
    show ?thesis
    proof (intro exI conjI allI)
      show "fft_buckets a normalizer2 temp buckets j l = Inr l'" by (rule step)
      show "transformedIndex l' = transformedIndex l + (buckets - j)" using idx l1f by simp
      show "triggered l' = (triggered l \<or> (trigger_threshold a \<le> minDB a
                 \<and> (\<exists>i. j \<le> i \<and> i < buckets
                        \<and> min_trigger_bucket a \<le> i \<and> i \<le> max_trigger_bucket a)))"
        using trg' by (simp only: T_def R_def)
      show "length (transformedData l') = length (transformedData l)" using len l1f by simp
      show "transformedData l' ! k =
                 (if transformed_buffer_index a + transformedIndex l \<le> int k
                     \<and> int k < transformed_buffer_index a + transformedIndex l + (buckets - j)
                  then minDB a else transformedData l ! k)" for k
        using pt [of k] by (simp only: pos_def)
    qed
  qed
qed

lemma fft_windows_silence:
  assumes ready: "fft_ready st"
    and zeros: "\<forall>x\<in>set input. x = 0"
    and enough: "num_windows * s_fft_window_size st \<le> int (length input)"
    and w: "0 \<le> windowIndex" "windowIndex \<le> num_windows"
    and room: "0 \<le> transformed_buffer_index a + transformedIndex l"
      "transformed_buffer_index a + transformedIndex l
         + (num_windows - windowIndex) * s_fft_frequency_buckets st
         \<le> int (length (transformedData l))"
  shows "\<exists>l' st'. fft_windows st a normalizer2 input num_windows windowIndex l
                     = Inr (num_windows, l', st')
           \<and> fft_ready st'
           \<and> s_fft_window_size st' = s_fft_window_size st
           \<and> transformedIndex l' = transformedIndex l
                 + (num_windows - windowIndex) * s_fft_frequency_buckets st
           \<and> triggered l' = (triggered l \<or> (trigger_threshold a \<le> minDB a
                 \<and> windowIndex < num_windows
                 \<and> (\<exists>i. 0 \<le> i \<and> i < s_fft_frequency_buckets st
                        \<and> min_trigger_bucket a \<le> i \<and> i \<le> max_trigger_bucket a)))
           \<and> length (transformedData l') = length (transformedData l)
           \<and> (\<forall>k. transformedData l' ! k =
                 (if transformed_buffer_index a + transformedIndex l \<le> int k
                     \<and> int k < transformed_buffer_index a + transformedIndex l
                                 + (num_windows - windowIndex) * s_fft_frequency_buckets st
                  then minDB a else transformedData l ! k))"
  using assms
proof (induction st a normalizer2 input num_windows windowIndex l rule: fft_windows.induct)
  case (1 st a normalizer2 input num_windows windowIndex l)
  note ready = "1.prems"(1) and zeros = "1.prems"(2) and enough = "1.prems"(3)
    and w = "1.prems"(4,5) and room = "1.prems"(6,7)
  define n where "n = s_fft_window_size st"
  define b where "b = s_fft_frequency_buckets st"
  define pos where "pos = transformed_buffer_index a + transformedIndex l"
  define T where "T = (trigger_threshold a \<le> minDB a)"
  define E where "E = (\<exists>i. 0 \<le> i \<and> i < b
                        \<and> min_trigger_bucket a \<le> i \<and> i \<le> max_trigger_bucket a)"
  have size: "0 < n" and cfg: "kfft_cfg st = Some n" and buckets: "b = n div 2 + 1"
    using ready by (simp_all add: fft_ready_def n_def b_def)
  obtain buf where bufeq: "s_fft_temp_buffer st = Some buf" and buflen: "int (length buf) = b + 1"
    using ready by (auto simp add: fft_ready_def b_def split: option.splits)
  have bpos: "0 < b" using size buckets by simp
  show ?case
  proof (cases "windowIndex < num_windows")
    case False
    then have "windowIndex = num_windows" using w by linarith
    then show ?thesis using ready by (subst fft_windows.simps) auto
  next
    case wi: True
    define start where "start = windowIndex * s_fft_window_size st"
    define window where "window = take (nat n) (drop (nat start) input)"
    define temp where "temp = kiss_fftr (nat n) window @ drop (nat n div 2 + 1) buf"
    define st1 where "st1 = st\<lparr> s_fft_temp_buffer := Some temp \<rparr>"
    have start0: "0 \<le> start" using w size by (simp add: start_def n_def)
    have "(windowIndex + 1) * n \<le> num_windows * n"
      using wi size by (intro mult_right_mono) simp_all
    then have fits: "start + n \<le> int (length input)"
      using enough by (simp add: start_def n_def algebra_simps)
    have nb: "int (nat n div 2 + 1) = b"
      using size buckets by (simp add: zdiv_int)
    have bl: "nat n div 2 + 1 \<le> length buf" using nb buflen by linarith
    have guard: "\<not> (n < 0 \<or> start < 0 \<or> int (length input) < start + n
                     \<or> length buf < nat n div 2 + 1)"
      using size start0 fits bl by simp
    have wl: "length window = nat n" using fits start0 size by (simp add: window_def)
    have wz: "\<forall>x\<in>set window. x = 0"
      using zeros by (auto simp: window_def dest: in_set_takeD in_set_dropD)
    have fz: "kiss_fftr (nat n) window = replicate (nat n div 2 + 1) 0"
      by (rule kiss_fftr_silence [OF wz wl])
    define m where "m = nat n div 2 + 1"
    have tempm: "temp = replicate m 0 @ drop m buf"
      by (simp only: temp_def fz m_def)
    have ml: "m \<le> length buf" using bl by (simp only: m_def)
    have templen: "length temp = length buf" using ml by (simp add: tempm)
    have temp0: "\<forall>k. int k < b \<longrightarrow> k < length temp \<and> temp ! k = 0"
    proof (intro allI impI)
      fix k assume "int k < b"
      then have "k < m" using nb by (simp add: m_def)
      then show "k < length temp \<and> temp ! k = 0" using ml by (simp add: tempm nth_append)
    qed
    have st1f: "s_fft_window_size st1 = n" "s_fft_frequency_buckets st1 = b"
      by (simp_all add: st1_def n_def b_def)
    have ready1: "fft_ready st1"
      using ready templen buflen by (simp add: fft_ready_def st1_def bufeq b_def)
    have mul: "(num_windows - windowIndex) * b = b + (num_windows - (windowIndex + 1)) * b"
      by (simp add: algebra_simps)
    have rest0: "0 \<le> (num_windows - (windowIndex + 1)) * b" using wi bpos by simp
    have broom: "pos + (b - 0) \<le> int (length (transformedData l))"
      using room(2) mul rest0 by (simp add: pos_def b_def)
    from fft_buckets_silence [OF temp0 _ _ _ broom [unfolded pos_def], of normalizer2] bpos room(1)
    obtain l1 where r1: "fft_buckets a normalizer2 temp b 0 l = Inr l1"
      and i1: "transformedIndex l1 = transformedIndex l + b"
      and t1: "triggered l1 = (triggered l \<or> (T \<and> E))"
      and len1: "length (transformedData l1) = length (transformedData l)"
      and nth1: "\<And>k. transformedData l1 ! k =
                 (if pos \<le> int k \<and> int k < pos + b then minDB a else transformedData l ! k)"
      by (auto simp: pos_def T_def E_def)
    have enough1: "num_windows * s_fft_window_size st1 \<le> int (length input)"
      using enough by (simp add: st1f n_def)
    have room1: "0 \<le> transformed_buffer_index a + transformedIndex l1"
      "transformed_buffer_index a + transformedIndex l1
         + (num_windows - (windowIndex + 1)) * s_fft_frequency_buckets st1
         \<le> int (length (transformedData l1))"
      using room mul bpos i1 len1 by (simp_all add: st1f b_def)
    have "\<exists>l' st'. fft_windows st1 a normalizer2 input num_windows (windowIndex + 1) l1
                     = Inr (num_windows, l', st')
           \<and> fft_ready st'
           \<and> s_fft_window_size st' = s_fft_window_size st1
           \<and> transformedIndex l' = transformedIndex l1
                 + (num_windows - (windowIndex + 1)) * s_fft_frequency_buckets st1
           \<and> triggered l' = (triggered l1 \<or> (trigger_threshold a \<le> minDB a
                 \<and> windowIndex + 1 < num_windows
                 \<and> (\<exists>i. 0 \<le> i \<and> i < s_fft_frequency_buckets st1
                        \<and> min_trigger_bucket a \<le> i \<and> i \<le> max_trigger_bucket a)))
           \<and> length (transformedData l') = length (transformedData l1)
           \<and> (\<forall>k. transformedData l' ! k =
                 (if transformed_buffer_index a + transformedIndex l1 \<le> int k
                     \<and> int k < transformed_buffer_index a + transformedIndex l1
                                 + (num_windows - (windowIndex + 1)) * s_fft_frequency_buckets st1
                  then minDB a else transformedData l1 ! k))"
      by (rule "1.IH" [OF wi cfg bufeq start_def guard window_def temp_def st1_def
            r1 [unfolded b_def] ready1 zeros enough1 _ _ room1])
         (use w wi in simp_all)
    then obtain l' st' where r: "fft_windows st1 a normalizer2 input num_windows (windowIndex + 1) l1
                               = Inr (num_windows, l', st')"
      and rdy: "fft_ready st'"
      and sz: "s_fft_window_size st' = n"
      and idx: "transformedIndex l' = transformedIndex l1 + (num_windows - (windowIndex + 1)) * b"
      and trg: "triggered l' = (triggered l1 \<or> (T \<and> windowIndex + 1 < num_windows \<and> E))"
      and len: "length (transformedData l') = length (transformedData l1)"
      and nth: "\<And>k. transformedData l' ! k =
                 (if pos + b \<le> int k \<and> int k < pos + b + (num_windows - (windowIndex + 1)) * b
                  then minDB a else transformedData l1 ! k)"
      unfolding st1f i1 pos_def T_def E_def by (auto simp: add.assoc)
    have step: "fft_windows st a normalizer2 input num_windows windowIndex l
                  = Inr (num_windows, l', st')"
    proof -
      have r1': "fft_buckets a normalizer2 temp (s_fft_frequency_buckets st) 0 l = Inr l1"
        using r1 by (simp only: b_def)
      have r': "fft_windows (st\<lparr> s_fft_temp_buffer := Some temp \<rparr>) a normalizer2 input
                  num_windows (windowIndex + 1) l1 = Inr (num_windows, l', st')"
        using r by (simp only: st1_def)
      show ?thesis
        using wi guard r1' r'
        by (subst fft_windows.simps)
           (simp add: Let_def cfg bufeq start_def window_def temp_def)
    qed
    have trg': "triggered l' = (triggered l \<or> (T \<and> windowIndex < num_windows \<and> E))"
      unfolding trg t1 using wi by blast
    have pt: "transformedData l' ! k =
                 (if pos \<le> int k \<and> int k < pos + (num_windows - windowIndex) * b
                  then minDB a else transformedData l ! k)" for k
    proof (cases "pos + b \<le> int k \<and> int k < pos + b + (num_windows - (windowIndex + 1)) * b")
      case tail: True
      then have "transformedData l' ! k = minDB a" using nth [of k] by simp
      moreover have ins: "pos \<le> int k \<and> int k < pos + (num_windows - windowIndex) * b"
        using tail bpos mul by linarith
      ultimately show ?thesis by (simp only: ins if_True simp_thms)
    next
      case notail: False
      have e: "transformedData l' ! k = transformedData l1 ! k"
        by (subst nth) (simp only: notail if_False)
      show ?thesis
      proof (cases "pos \<le> int k \<and> int k < pos + b")
        case head: True
        then have "transformedData l1 ! k = minDB a" using nth1 [of k] by simp
        moreover have ins: "pos \<le> int k \<and> int k < pos + (num_windows - windowIndex) * b"
          using head rest0 mul by linarith
        ultimately have "transformedData l' ! k = minDB a" using e by simp
        then show ?thesis by (simp only: ins if_True simp_thms)
      next
        case nohead: False
        have "transformedData l1 ! k = transformedData l ! k"
          by (subst nth1) (simp only: nohead if_False)
        moreover have out: "\<not> (pos \<le> int k \<and> int k < pos + (num_windows - windowIndex) * b)"
          using nohead notail mul by linarith
        ultimately have "transformedData l' ! k = transformedData l ! k" using e by simp
        then show ?thesis by (simp only: out if_False simp_thms)
      qed
    qed
    show ?thesis
    proof (intro exI conjI allI)
      show "fft_windows st a normalizer2 input num_windows windowIndex l = Inr (num_windows, l', st')"
        by (rule step)
      show "fft_ready st'" by (rule rdy)
      show "s_fft_window_size st' = s_fft_window_size st" using sz by (simp only: n_def)
      show "transformedIndex l' = transformedIndex l
                 + (num_windows - windowIndex) * s_fft_frequency_buckets st"
        using idx i1 mul by (simp add: b_def)
      show "triggered l' = (triggered l \<or> (trigger_threshold a \<le> minDB a
                 \<and> windowIndex < num_windows
                 \<and> (\<exists>i. 0 \<le> i \<and> i < s_fft_frequency_buckets st
                        \<and> min_trigger_bucket a \<le> i \<and> i \<le> max_trigger_bucket a)))"
        using trg' by (simp only: T_def E_def b_def)
      show "length (transformedData l') = length (transformedData l)" using len len1 by simp
      show "transformedData l' ! k =
                 (if transformed_buffer_index a + transformedIndex l \<le> int k
                     \<and> int k < transformed_buffer_index a + transformedIndex l
                                 + (num_windows - windowIndex) * s_fft_frequency_buckets st
                  then minDB a else transformedData l ! k)" for k
        using pt [of k] by (simp only: pos_def b_def)
    qed
  qed
qed

text \<open>
  Claim C5, amended. The trigger test compares the value written, which for silence is
  the floor, with the threshold, and the test is "meets or exceeds". For a transform
  that \<open>initFft\<close> has set up, every window count, every trigger bucket range and every
  threshold, slices that are entirely zero make \<open>doFft\<close> write the floor into every
  bucket of every window (and nothing else of the output array) and return the window
  count. The trigger flag is set exactly when the threshold is at or below the floor, at
  least one window is processed and the trigger range holds one of the buckets; so it
  stays clear for every threshold above the floor. The transform is left ready for the
  next call.
\<close>

theorem C5_silence_gives_floor:
  assumes ready: "fft_ready st"
    and zeros: "\<forall>x\<in>set input. x = 0"
    and nw: "0 \<le> num_windows"
    and enough: "num_windows * s_fft_window_size st \<le> int (length input)"
    and off: "0 \<le> transformed_buffer_index a"
    and room: "transformed_buffer_index a + num_windows * s_fft_frequency_buckets st
                 \<le> int (length output)"
  shows "\<exists>out st'. doFft st num_windows input output a
             = Inr (num_windows, out,
                    (trigger_threshold a \<le> minDB a \<and> 0 < num_windows
                     \<and> (\<exists>j. 0 \<le> j \<and> j < s_fft_frequency_buckets st
                            \<and> min_trigger_bucket a \<le> j \<and> j \<le> max_trigger_bucket a)),
                    st')
           \<and> fft_ready st'
           \<and> length out = length output
           \<and> (\<forall>k. out ! k =
                 (if transformed_buffer_index a \<le> int k
                     \<and> int k < transformed_buffer_index a
                                 + num_windows * s_fft_frequency_buckets st
                  then minDB a else output ! k))"
proof -
  define l0 where "l0 = \<lparr> transformedData = output, transformedIndex = 0, triggered = False \<rparr>"
  define n2 where "n2 = 2 / real_of_int (s_fft_window_size st) * (2 / real_of_int (s_fft_window_size st))"
  define trig where "trig = (trigger_threshold a \<le> minDB a \<and> 0 < num_windows
                     \<and> (\<exists>j. 0 \<le> j \<and> j < s_fft_frequency_buckets st
                            \<and> min_trigger_bucket a \<le> j \<and> j \<le> max_trigger_bucket a))"
  have r0: "0 \<le> transformed_buffer_index a + transformedIndex l0"
    "transformed_buffer_index a + transformedIndex l0
         + (num_windows - 0) * s_fft_frequency_buckets st
         \<le> int (length (transformedData l0))"
    using off room by (simp_all add: l0_def)
  from fft_windows_silence [OF ready zeros enough _ nw r0, of n2]
  obtain l' st' where r: "fft_windows st a n2 input num_windows 0 l0 = Inr (num_windows, l', st')"
    and rdy: "fft_ready st'"
    and trg: "triggered l' = (triggered l0 \<or> trig)"
    and len: "length (transformedData l') = length (transformedData l0)"
    and nth: "\<And>k. transformedData l' ! k =
                 (if transformed_buffer_index a + transformedIndex l0 \<le> int k
                     \<and> int k < transformed_buffer_index a + transformedIndex l0
                                 + (num_windows - 0) * s_fft_frequency_buckets st
                  then minDB a else transformedData l0 ! k)"
    unfolding trig_def by auto
  have t: "triggered l' = trig" using trg by (simp add: l0_def)
  have d: "doFft st num_windows input output a
             = Inr (num_windows, transformedData l', trig, st')"
    using r t by (simp add: doFft_def Let_def l0_def n2_def)
  show ?thesis
  proof (intro exI conjI allI)
    show "doFft st num_windows input output a
            = Inr (num_windows, transformedData l',
                   (trigger_threshold a \<le> minDB a \<and> 0 < num_windows
                     \<and> (\<exists>j. 0 \<le> j \<and> j < s_fft_frequency_buckets st
                            \<and> min_trigger_bucket a \<le> j \<and> j \<le> max_trigger_bucket a)),
                   st')"
      using d by (simp only: trig_def)
    show "fft_ready st'" by (rule rdy)
    show "length (transformedData l') = length output" using len by (simp add: l0_def)
    show "transformedData l' ! k =
                 (if transformed_buffer_index a \<le> int k
                     \<and> int k < transformed_buffer_index a
                                 + num_windows * s_fft_frequency_buckets st
                  then minDB a else output ! k)" for k
      using nth [of k] by (simp add: l0_def)
  qed
qed

text \<open>
  Two windows of four samples after \<open>initFft(4)\<close>, trigger range 0 to 2: with the floor
  at -100 dB the flag stays clear for the threshold -50 dB and is set for the
  threshold -100 dB, the floor itself.
\<close>

theorem C5_witness:
  "initFft pipeline_initial True True 4
     = Inr (0, pipeline_initial\<lparr> kfft_cfg := Some 4, s_fft_window_size := 4,
                 s_fft_frequency_buckets := 3,
                 s_fft_temp_buffer := Some [0, 0, 0, Complex canaryValue canaryValue] \<rparr>)
   \<and> (\<exists>out st'. doFft (pipeline_initial\<lparr> kfft_cfg := Some 4, s_fft_window_size := 4,
                 s_fft_frequency_buckets := 3,
                 s_fft_temp_buffer := Some [0, 0, 0, Complex canaryValue canaryValue] \<rparr>)
             2 [0, 0, 0, 0, 0, 0, 0, 0] [5, 5, 5, 5, 5, 5, 5]
             \<lparr> transformed_buffer_index = 1, minDB = - 100, min_trigger_bucket = 0,
               max_trigger_bucket = 2, trigger_threshold = - 50 \<rparr>
           = Inr (2, out, False, st')
         \<and> length out = 7 \<and> out ! 0 = 5 \<and> out ! 1 = - 100 \<and> out ! 6 = - 100)
   \<and> (\<exists>out st'. doFft (pipeline_initial\<lparr> kfft_cfg := Some 4, s_fft_window_size := 4,
                 s_fft_frequency_buckets := 3,
                 s_fft_temp_buffer := Some [0, 0, 0, Complex canaryValue canaryValue] \<rparr>)
             2 [0, 0, 0, 0, 0, 0, 0, 0] [5, 5, 5, 5, 5, 5, 5]
             \<lparr> transformed_buffer_index = 1, minDB = - 100, min_trigger_bucket = 0,
               max_trigger_bucket = 2, trigger_threshold = - 100 \<rparr>
           = Inr (2, out, True, st')
         \<and> length out = 7 \<and> out ! 0 = 5 \<and> out ! 1 = - 100 \<and> out ! 6 = - 100)"
proof -
  let ?st = "pipeline_initial\<lparr> kfft_cfg := Some 4, s_fft_window_size := 4,
                 s_fft_frequency_buckets := 3,
                 s_fft_temp_buffer := Some [0, 0, 0, Complex canaryValue canaryValue] \<rparr>"
  let ?a = "\<lambda>thr. \<lparr> transformed_buffer_index = 1, minDB = - 100, min_trigger_bucket = 0,
               max_trigger_bucket = 2, trigger_threshold = thr \<rparr>"
  have i: "initFft pipeline_initial True True 4 = Inr (0, ?st)"
    by (simp add: initFft_def cleanup_fft_def Let_def c_div_def pipeline_initial_def
        numeral_eq_Suc)
  have f: "fft_ready ?st" "s_fft_window_size ?st = 4" "s_fft_frequency_buckets ?st = 3"
    by (simp_all add: fft_ready_def)
  have e: "(\<exists>j::int. 0 \<le> j \<and> j < 3 \<and> 0 \<le> j \<and> j \<le> 2) = True"
    by (simp add: exI [of _ 0])
  from C5_silence_gives_floor [of ?st "[0, 0, 0, 0, 0, 0, 0, 0]" 2 "?a (- 50)" "[5, 5, 5, 5, 5, 5, 5]"]
  obtain out st' where r: "doFft ?st 2 [0, 0, 0, 0, 0, 0, 0, 0] [5, 5, 5, 5, 5, 5, 5] (?a (- 50))
                             = Inr (2, out, False, st')"
    and len: "length out = 7"
    and nth: "\<And>k. out ! k = (if 1 \<le> int k \<and> int k < 7 then - 100 else [5, 5, 5, 5, 5, 5, 5] ! k)"
    using f(1) unfolding f(2,3) by auto
  have v: "out ! 0 = 5" "out ! 1 = - 100" "out ! 6 = - 100"
    using nth [of 0] nth [of 1] nth [of 6] by simp_all
  from C5_silence_gives_floor [of ?st "[0, 0, 0, 0, 0, 0, 0, 0]" 2 "?a (- 100)" "[5, 5, 5, 5, 5, 5, 5]"]
  obtain out2 st2 where r2: "doFft ?st 2 [0, 0, 0, 0, 0, 0, 0, 0] [5, 5, 5, 5, 5, 5, 5] (?a (- 100))
                             = Inr (2, out2, True, st2)"
    and len2: "length out2 = 7"
    and nth2: "\<And>k. out2 ! k = (if 1 \<le> int k \<and> int k < 7 then - 100 else [5, 5, 5, 5, 5, 5, 5] ! k)"
    using f(1) unfolding f(2,3) by (auto simp: e)
  have v2: "out2 ! 0 = 5" "out2 ! 1 = - 100" "out2 ! 6 = - 100"
    using nth2 [of 0] nth2 [of 1] nth2 [of 6] by simp_all
  show ?thesis
  proof (intro conjI)
    show "initFft pipeline_initial True True 4 = Inr (0, ?st)" by (rule i)
    show "\<exists>out st'. doFft ?st 2 [0, 0, 0, 0, 0, 0, 0, 0] [5, 5, 5, 5, 5, 5, 5] (?a (- 50))
            = Inr (2, out, False, st')
          \<and> length out = 7 \<and> out ! 0 = 5 \<and> out ! 1 = - 100 \<and> out ! 6 = - 100"
      using r len v by blast
    show "\<exists>out st'. doFft ?st 2 [0, 0, 0, 0, 0, 0, 0, 0] [5, 5, 5, 5, 5, 5, 5] (?a (- 100))
            = Inr (2, out, True, st')
          \<and> length out = 7 \<and> out ! 0 = 5 \<and> out ! 1 = - 100 \<and> out ! 6 = - 100"
      using r2 len2 v2 by blast
  qed
qed

text \<open>
  With the floor at -100 dB and the threshold at -120 dB, one window of silence after
  \<open>initFft(2)\<close> sets the trigger flag.
\<close>

theorem C5_counterexample:
  "initFft pipeline_initial True True 2
     = Inr (0, pipeline_initial\<lparr> kfft_cfg := Some 2, s_fft_window_size := 2,
                 s_fft_frequency_buckets := 2,
                 s_fft_temp_buffer := Some [0, 0, Complex canaryValue canaryValue] \<rparr>)
   \<and> doFft (pipeline_initial\<lparr> kfft_cfg := Some 2, s_fft_window_size := 2,
                 s_fft_frequency_buckets := 2,
                 s_fft_temp_buffer := Some [0, 0, Complex canaryValue canaryValue] \<rparr>)
        1 [0, 0] [7, 7, 7]
        \<lparr> transformed_buffer_index = 0, minDB = - 100, min_trigger_bucket = 0,
          max_trigger_bucket = 1, trigger_threshold = - 120 \<rparr>
     = Inr (1, [- 100, - 100, 7], True,
            pipeline_initial\<lparr> kfft_cfg := Some 2, s_fft_window_size := 2,
                 s_fft_frequency_buckets := 2,
                 s_fft_temp_buffer := Some [0, 0, Complex canaryValue canaryValue] \<rparr>)"
proof -
  have k: "kiss_fftr 2 [0, 0] = [0, 0]"
    using kiss_fftr_silence [of "[0, 0]" 2] by (simp add: numeral_2_eq_2)
  have i: "initFft pipeline_initial True True 2
     = Inr (0, pipeline_initial\<lparr> kfft_cfg := Some 2, s_fft_window_size := 2,
                 s_fft_frequency_buckets := 2,
                 s_fft_temp_buffer := Some [0, 0, Complex canaryValue canaryValue] \<rparr>)"
    by (simp add: initFft_def cleanup_fft_def Let_def c_div_def pipeline_initial_def
        numeral_eq_Suc)
  have d: "doFft (pipeline_initial\<lparr> kfft_cfg := Some 2, s_fft_window_size := 2,
                 s_fft_frequency_buckets := 2,
                 s_fft_temp_buffer := Some [0, 0, Complex canaryValue canaryValue] \<rparr>)
        1 [0, 0] [7, 7, 7]
        \<lparr> transformed_buffer_index = 0, minDB = - 100, min_trigger_bucket = 0,
          max_trigger_bucket = 1, trigger_threshold = - 120 \<rparr>
     = Inr (1, [- 100, - 100, 7], True,
            pipeline_initial\<lparr> kfft_cfg := Some 2, s_fft_window_size := 2,
                 s_fft_frequency_buckets := 2,
                 s_fft_temp_buffer := Some [0, 0, Complex canaryValue canaryValue] \<rparr>)"
    by (simp add: doFft_def fft_windows.simps Let_def k
        fft_buckets.simps fft_bucket_def pipeline_initial_def)
  show ?thesis using i d by (rule conjI)
qed

end
